theory Spec2Isabelle
  imports Complex_Main "HOL-Library.FSet"
begin

section \<open>Python strings\<close>

text \<open>
  A Python \<open>str\<close> is a sequence of Unicode code points, so a string is a list of
  code points (natural numbers), not of bytes: the trademark sign of the source's regular
  expression is the single code point U+2122. ASCII literals are written through
  \<open>of_ascii\<close>.
\<close>

type_synonym codepoint = nat
type_synonym pystr = "codepoint list"

definition of_ascii :: "string \<Rightarrow> pystr" where
  "of_ascii s = map of_char s"

definition is_digit :: "codepoint \<Rightarrow> bool" where
  "is_digit c \<longleftrightarrow> 48 \<le> c \<and> c \<le> 57"

text \<open>\<open>str(n)\<close> for a non-negative integer: its decimal digits.\<close>

fun str_nat :: "nat \<Rightarrow> pystr" where
  "str_nat n = (if n < 10 then [48 + n] else str_nat (n div 10) @ [48 + n mod 10])"

declare str_nat.simps [simp del]

text \<open>\<open>s.replace(old, new)\<close> for a one-character \<open>old\<close>.\<close>

definition replace_char :: "codepoint \<Rightarrow> pystr \<Rightarrow> pystr \<Rightarrow> pystr" where
  "replace_char old new s = concat (map (\<lambda>c. if c = old then new else [c]) s)"

text \<open>
  The exceptions of the model are instances of Python's \<open>Exception\<close> class, the ones
  an \<open>except Exception\<close> clause catches. Task cancellation and a keyboard interrupt
  derive from \<open>BaseException\<close> only and are no part of the model.
\<close>

datatype exc = ValueError | TimeoutError | ClientError | UnicodeEncodeError | OSError

section \<open>\<open>money_to_float\<close>\<close>



text \<open>
  The string \<open>money_to_float\<close> passes to \<open>float\<close>, for a text with at least one digit,
  dot or comma: \<open>re.sub(r"[^0-9\.,]", "", txt)\<close>, then the commas removed when a dot is
  present as well, and turned into dots otherwise.
\<close>

definition money_clean :: "pystr \<Rightarrow> pystr" where
  "money_clean txt =
     (let clean = filter (\<lambda>c. is_digit c \<or> c = 46 \<or> c = 44) txt in
      if 44 \<in> set clean \<and> 46 \<in> set clean then replace_char 44 [] clean
      else if 44 \<in> set clean then replace_char 44 [46] clean
      else clean)"


section \<open>\<open>fetch\<close>\<close>

text \<open>
  One \<open>session.get\<close> either raises or yields a response with a status; reading the body
  of the response (\<open>await resp.text()\<close>) may raise as well. The network is a function from
  the attempt number to what the request of that attempt does.
\<close>

record response =
  status :: nat
  text_of :: "exc + pystr"

type_synonym network = "nat \<Rightarrow> exc + response"

datatype step = Return pystr | Sleep nat

text \<open>The body of the \<open>try\<close> statement of one attempt: it returns, sleeps or raises.\<close>

definition try_body :: "exc + response \<Rightarrow> nat \<Rightarrow> exc + step" where
  "try_body got attempt =
     (case got of
        Inl e \<Rightarrow> Inl e
      | Inr resp \<Rightarrow>
          if status resp = 200 then (case text_of resp of Inl e \<Rightarrow> Inl e | Inr t \<Rightarrow> Inr (Return t))
          else if status resp = 429 then Inr (Sleep (3 * (attempt + 1)))
          else Inr (Sleep 1))"

text \<open>
  The two handlers: \<open>except asyncio.TimeoutError\<close> sleeps two seconds,
  \<open>except Exception\<close> one second.
\<close>

definition attempt_step :: "exc + response \<Rightarrow> nat \<Rightarrow> step" where
  "attempt_step got attempt =
     (case try_body got attempt of
        Inl TimeoutError \<Rightarrow> Sleep 2
      | Inl _ \<Rightarrow> Sleep 1
      | Inr s \<Rightarrow> s)"

record fetched =
  content :: "pystr option"
  sleeps :: "nat list"
  requests :: nat

text \<open>
  \<open>for attempt in range(5)\<close>, with \<open>n\<close> attempts left; the seconds slept are collected
  in order and the requests made are counted.
\<close>

primrec fetch_loop :: "network \<Rightarrow> nat \<Rightarrow> nat \<Rightarrow> nat list \<Rightarrow> fetched" where
  "fetch_loop net 0 attempt slept = \<lparr>content = None, sleeps = slept, requests = attempt\<rparr>"
| "fetch_loop net (Suc n) attempt slept =
     (case attempt_step (net attempt) attempt of
        Return t \<Rightarrow> \<lparr>content = Some t, sleeps = slept, requests = Suc attempt\<rparr>
      | Sleep d \<Rightarrow> fetch_loop net n (Suc attempt) (slept @ [d]))"

definition fetch :: "network \<Rightarrow> fetched" where
  "fetch net = fetch_loop net 5 0 []"

text \<open>Two networks for concrete runs: one always rate limited, one that answers at the fourth request.\<close>

definition always_limited :: network where
  "always_limited k = Inr \<lparr>status = 429, text_of = Inr []\<rparr>"

definition fourth_time_lucky :: network where
  "fourth_time_lucky k =
     (if k = 0 then Inr \<lparr>status = 429, text_of = Inr []\<rparr>
      else if k = 1 then Inl TimeoutError
      else if k = 2 then Inr \<lparr>status = 503, text_of = Inr []\<rparr>
      else Inr \<lparr>status = 200, text_of = Inr (of_ascii ''<html>'')\<rparr>)"

section \<open>\<open>normalize_game_name\<close>\<close>

text \<open>
  \<open>str.lower()\<close> maps every code point through the lowercase mapping of the Unicode
  database, which may give several code points, except the capital sigma U+03A3, which
  becomes the final sigma U+03C2 or the small sigma U+03C3 according to its context. On
  ASCII the mapping is fixed: \<open>A\<close> to \<open>Z\<close> become \<open>a\<close> to \<open>z\<close>. The database is not
  part of the repository; its mapping of the other code points and its test of the
  final-sigma context are the two fields of a parameter.
\<close>

record unicode_db =
  to_lower_full :: "codepoint \<Rightarrow> pystr"
  final_sigma :: "pystr \<Rightarrow> nat \<Rightarrow> bool"

definition lower_ucs4 :: "unicode_db \<Rightarrow> pystr \<Rightarrow> nat \<Rightarrow> pystr" where
  "lower_ucs4 db s i =
     (let c = s ! i in
      if c = 931 then [if final_sigma db s i then 962 else 963]
      else if c < 128 then [if 65 \<le> c \<and> c \<le> 90 then c + 32 else c]
      else to_lower_full db c)"

definition lower :: "unicode_db \<Rightarrow> pystr \<Rightarrow> pystr" where
  "lower db s = concat (map (lower_ucs4 db s) [0..<length s])"

text \<open>The fixed mapping of the ASCII code points.\<close>

definition ascii_lower :: "codepoint \<Rightarrow> codepoint" where
  "ascii_lower c = (if 65 \<le> c \<and> c \<le> 90 then c + 32 else c)"

text \<open>
  The code points that \<open>\s\<close> of a \<open>str\<close> pattern matches and that \<open>str.strip()\<close>
  removes; both use the same test of the interpreter: the ASCII controls 9 to 13 and 28 to
  31, the space, U+0085, U+00A0, U+1680, U+2000 to U+200A, U+2028, U+2029, U+202F, U+205F
  and U+3000.
\<close>

definition is_space :: "codepoint \<Rightarrow> bool" where
  "is_space c \<longleftrightarrow>
     (9 \<le> c \<and> c \<le> 13) \<or> (28 \<le> c \<and> c \<le> 32) \<or> c = 133 \<or> c = 160 \<or> c = 5760
     \<or> (8192 \<le> c \<and> c \<le> 8202) \<or> c = 8232 \<or> c = 8233 \<or> c = 8239 \<or> c = 8287
     \<or> c = 12288"

text \<open>
  The class of the first substitution: trademark U+2122, registered U+00AE, copyright
  U+00A9, colon, apostrophe and hyphen.
\<close>

definition is_symbol :: "codepoint \<Rightarrow> bool" where
  "is_symbol c \<longleftrightarrow> c = 8482 \<or> c = 174 \<or> c = 169 \<or> c = 58 \<or> c = 39 \<or> c = 45"

text \<open>\<open>re.sub(r"\s+", " ", s)\<close>: every maximal run of white space becomes one space.\<close>

function collapse_ws :: "pystr \<Rightarrow> pystr" where
  "collapse_ws [] = []"
| "collapse_ws (c # cs) =
     (if is_space c then 32 # collapse_ws (dropWhile is_space cs) else c # collapse_ws cs)"
  by pat_completeness auto
termination
  by (relation "measure length") (auto simp: length_dropWhile_le less_Suc_eq_le)

definition strip :: "pystr \<Rightarrow> pystr" where
  "strip s = rev (dropWhile is_space (rev (dropWhile is_space s)))"

definition normalize_game_name :: "unicode_db \<Rightarrow> pystr \<Rightarrow> pystr" where
  "normalize_game_name db name =
     (if name = [] then []
      else strip (collapse_ws (filter (\<lambda>c. \<not> is_symbol c) (lower db name))))"

text \<open>
  A code point is lowered when \<open>lower\<close> maps it to itself in every context. The mapping
  of a database is closed when it yields lowered code points only, as the mapping of
  Unicode does: the lowercase form of a character has no other lowercase form.
\<close>

definition is_lowered :: "unicode_db \<Rightarrow> codepoint \<Rightarrow> bool" where
  "is_lowered db c \<longleftrightarrow>
     c \<noteq> 931 \<and> (if c < 128 then \<not> (65 \<le> c \<and> c \<le> 90) else to_lower_full db c = [c])"

definition lower_closed :: "unicode_db \<Rightarrow> bool" where
  "lower_closed db \<longleftrightarrow>
     is_lowered db 962 \<and> is_lowered db 963
     \<and> (\<forall>c. 128 \<le> c \<and> c \<noteq> 931 \<longrightarrow> (\<forall>d \<in> set (to_lower_full db c). is_lowered db d))"

text \<open>
  A fragment of the database for concrete runs: the capital letters of Latin-1 and the
  dotted capital I (U+0130, whose lowercase form is two code points); a capital sigma is
  final when it is last and not first.
\<close>

definition sample_db :: unicode_db where
  "sample_db =
     \<lparr>to_lower_full = (\<lambda>c. if (192 \<le> c \<and> c \<le> 214) \<or> (216 \<le> c \<and> c \<le> 222) then [c + 32]
                            else if c = 304 then [105, 775] else [c]),
      final_sigma = (\<lambda>s i. 0 < i \<and> Suc i = length s)\<rparr>"

text \<open>
  A string is tidy when its only white space is single spaces: what the second
  substitution leaves.
\<close>

fun tidy :: "pystr \<Rightarrow> bool" where
  "tidy [] = True"
| "tidy [c] = (is_space c \<longrightarrow> c = 32)"
| "tidy (c # d # cs) = ((is_space c \<longrightarrow> c = 32 \<and> \<not> is_space d) \<and> tidy (d # cs))"

section \<open>Properties of \<open>money_to_float\<close>\<close>

lemma money_clean_alphabet: "c \<in> set (money_clean txt) \<Longrightarrow> is_digit c \<or> c = 46"
  by (auto simp: money_clean_def replace_char_def Let_def split: if_splits)






section \<open>Properties of \<open>fetch\<close>\<close>

text \<open>An attempt succeeds when the status is 200 and the body can be read.\<close>

definition succeeds :: "exc + response \<Rightarrow> bool" where
  "succeeds got = (case got of Inl e \<Rightarrow> False
     | Inr resp \<Rightarrow> status resp = 200 \<and> (case text_of resp of Inl e \<Rightarrow> False | Inr t \<Rightarrow> True))"

text \<open>The pause the retry policy prescribes after a failed attempt.\<close>

definition pause :: "exc + response \<Rightarrow> nat \<Rightarrow> nat" where
  "pause got attempt =
     (case got of
        Inl e \<Rightarrow> if e = TimeoutError then 2 else 1
      | Inr resp \<Rightarrow>
          if status resp = 429 then 3 * (attempt + 1)
          else if status resp = 200 then (if text_of resp = Inl TimeoutError then 2 else 1)
          else 1)"

lemma attempt_step_Return:
  "attempt_step got a = Return t \<longleftrightarrow> (\<exists>resp. got = Inr resp \<and> status resp = 200 \<and> text_of resp = Inr t)"
  by (auto simp: attempt_step_def try_body_def split: sum.splits exc.splits if_splits)

lemma attempt_step_Sleep:
  "attempt_step got a = Sleep d \<longleftrightarrow> \<not> succeeds got \<and> d = pause got a"
  by (auto simp: attempt_step_def try_body_def succeeds_def pause_def
      split: sum.splits exc.splits if_splits)

lemma fetch_loop_requests:
  "requests (fetch_loop net n a sl) \<le> a + n
   \<and> (content (fetch_loop net n a sl) = None \<longrightarrow> requests (fetch_loop net n a sl) = a + n)
   \<and> (content (fetch_loop net n a sl) \<noteq> None \<longrightarrow> a < requests (fetch_loop net n a sl))"
proof (induction n arbitrary: a sl)
  case 0
  show ?case by simp
next
  case (Suc n)
  show ?case
  proof (cases "attempt_step (net a) a")
    case (Return t)
    then show ?thesis by simp
  next
    case (Sleep d)
    with Suc.IH [of "Suc a" "sl @ [d]"] show ?thesis by auto
  qed
qed

lemma fetch_loop_sleeps:
  "\<exists>m. sleeps (fetch_loop net n a sl) = sl @ map (\<lambda>k. pause (net k) k) [a..<a + m]
     \<and> (\<forall>k. a \<le> k \<and> k < a + m \<longrightarrow> \<not> succeeds (net k))
     \<and> requests (fetch_loop net n a sl)
         = a + m + (if content (fetch_loop net n a sl) = None then 0 else 1)"
proof (induction n arbitrary: a sl)
  case 0
  show ?case by (intro exI [of _ 0]) auto
next
  case (Suc n)
  show ?case
  proof (cases "attempt_step (net a) a")
    case (Return t)
    then show ?thesis by (intro exI [of _ 0]) auto
  next
    case (Sleep d)
    then have f: "\<not> succeeds (net a)" and d: "d = pause (net a) a"
      by (simp_all add: attempt_step_Sleep)
    from Suc.IH [of "Suc a" "sl @ [d]"] obtain m where
      m: "sleeps (fetch_loop net n (Suc a) (sl @ [d]))
            = (sl @ [d]) @ map (\<lambda>k. pause (net k) k) [Suc a..<Suc a + m]"
         "\<forall>k. Suc a \<le> k \<and> k < Suc a + m \<longrightarrow> \<not> succeeds (net k)"
         "requests (fetch_loop net n (Suc a) (sl @ [d]))
            = Suc a + m + (if content (fetch_loop net n (Suc a) (sl @ [d])) = None then 0 else 1)"
      by blast
    have l: "[a..<a + Suc m] = a # [Suc a..<Suc a + m]"
      by (simp add: upt_conv_Cons)
    have "\<forall>k. a \<le> k \<and> k < a + Suc m \<longrightarrow> \<not> succeeds (net k)"
      using f m(2) by (metis Suc_leI add_Suc add_Suc_right le_neq_implies_less)
    with m(1) m(3) Sleep d l show ?thesis
      by (intro exI [of _ "Suc m"]) simp
  qed
qed

lemma fetch_loop_content:
  "content (fetch_loop net n a sl) = Some t \<Longrightarrow>
     \<exists>resp. net (requests (fetch_loop net n a sl) - 1) = Inr resp
       \<and> status resp = 200 \<and> text_of resp = Inr t"
proof (induction n arbitrary: a sl)
  case 0
  then show ?case by simp
next
  case (Suc n)
  show ?case
  proof (cases "attempt_step (net a) a")
    case (Return u)
    with Suc.prems have u: "u = t" by simp
    from Return have a: "requests (fetch_loop net (Suc n) a sl) - 1 = a" by simp
    from Return u show ?thesis unfolding a by (simp add: attempt_step_Return)
  next
    case (Sleep d)
    with Suc.prems Suc.IH [of "Suc a" "sl @ [d]"] show ?thesis by simp
  qed
qed

text \<open>
  C7. \<open>fetch\<close> returns a value whatever the network does: every exception of a request or
  of reading the body is handled inside the attempt. It makes at most five requests. After
  each failed attempt it sleeps: three seconds times the attempt number (counted from one)
  on status 429, two seconds on a timeout, one second on any other status or exception.
  It returns the body of the first attempt that succeeds, and no content exactly when all
  five attempts fail.
\<close>

theorem fetch_retry_policy:
  "requests (fetch net) \<le> 5
   \<and> (\<forall>k < length (sleeps (fetch net)).
         \<not> succeeds (net k) \<and> sleeps (fetch net) ! k = pause (net k) k)
   \<and> (\<forall>k resp. net k = Inr resp \<and> status resp = 429 \<longrightarrow> pause (net k) k = 3 * (k + 1))
   \<and> (\<forall>k. net k = Inl TimeoutError \<longrightarrow> pause (net k) k = 2)
   \<and> (\<forall>k resp. net k = Inr resp \<and> status resp \<noteq> 429 \<and> status resp \<noteq> 200
         \<longrightarrow> pause (net k) k = 1)
   \<and> (\<forall>k e. net k = Inl e \<and> e \<noteq> TimeoutError \<longrightarrow> pause (net k) k = 1)
   \<and> (content (fetch net) = None \<longleftrightarrow> (\<forall>k < 5. \<not> succeeds (net k)))
   \<and> (content (fetch net) = None \<longrightarrow>
         requests (fetch net) = 5 \<and> length (sleeps (fetch net)) = 5)
   \<and> (\<forall>t. content (fetch net) = Some t \<longrightarrow>
         length (sleeps (fetch net)) = requests (fetch net) - 1
         \<and> (\<exists>resp. net (requests (fetch net) - 1) = Inr resp
               \<and> status resp = 200 \<and> text_of resp = Inr t))"
proof -
  obtain m where
    sl: "sleeps (fetch net) = map (\<lambda>k. pause (net k) k) [0..<m]"
    and fl: "\<forall>k. k < m \<longrightarrow> \<not> succeeds (net k)"
    and at: "requests (fetch net) = m + (if content (fetch net) = None then 0 else 1)"
    using fetch_loop_sleeps [of net 5 0 "[]"] by (auto simp: fetch_def)
  have le: "requests (fetch net) \<le> 5"
    and none: "content (fetch net) = None \<longrightarrow> requests (fetch net) = 5"
    using fetch_loop_requests [of net 5 0 "[]"] by (simp_all add: fetch_def)
  have some: "content (fetch net) = Some t \<Longrightarrow>
      \<exists>resp. net (requests (fetch net) - 1) = Inr resp \<and> status resp = 200 \<and> text_of resp = Inr t"
    for t
    using fetch_loop_content [of net 5 0 "[]" t] by (simp add: fetch_def)
  have p2: "\<forall>k < length (sleeps (fetch net)).
         \<not> succeeds (net k) \<and> sleeps (fetch net) ! k = pause (net k) k"
    using sl fl by simp
  have p3: "\<forall>k resp. net k = Inr resp \<and> status resp = 429 \<longrightarrow> pause (net k) k = 3 * (k + 1)"
    by (simp add: pause_def)
  have p4: "\<forall>k. net k = Inl TimeoutError \<longrightarrow> pause (net k) k = 2"
    by (simp add: pause_def)
  have p5: "\<forall>k resp. net k = Inr resp \<and> status resp \<noteq> 429 \<and> status resp \<noteq> 200
         \<longrightarrow> pause (net k) k = 1"
    by (simp add: pause_def)
  have p6: "\<forall>k e. net k = Inl e \<and> e \<noteq> TimeoutError \<longrightarrow> pause (net k) k = 1"
    by (simp add: pause_def)
  have p7: "content (fetch net) = None \<longleftrightarrow> (\<forall>k < 5. \<not> succeeds (net k))"
  proof
    assume n: "content (fetch net) = None"
    with none at have "m = 5" by simp
    with fl show "\<forall>k < 5. \<not> succeeds (net k)" by simp
  next
    assume all: "\<forall>k < 5. \<not> succeeds (net k)"
    show "content (fetch net) = None"
    proof (rule ccontr)
      assume "content (fetch net) \<noteq> None"
      then obtain t where t: "content (fetch net) = Some t" by auto
      from some [OF t] have "succeeds (net (requests (fetch net) - 1))"
        by (auto simp: succeeds_def)
      moreover from t at le have "requests (fetch net) - 1 < 5" by simp
      ultimately show False using all by blast
    qed
  qed
  have p8: "content (fetch net) = None \<longrightarrow>
         requests (fetch net) = 5 \<and> length (sleeps (fetch net)) = 5"
    using none at sl by auto
  have p9: "\<forall>t. content (fetch net) = Some t \<longrightarrow>
         length (sleeps (fetch net)) = requests (fetch net) - 1
         \<and> (\<exists>resp. net (requests (fetch net) - 1) = Inr resp
               \<and> status resp = 200 \<and> text_of resp = Inr t)"
    using some at sl by auto
  from le p2 p3 p4 p5 p6 p7 p8 p9 show ?thesis by blast
qed

theorem fetch_retry_policy_witness:
  "content (fetch always_limited) = None
   \<and> requests (fetch always_limited) = 5
   \<and> sleeps (fetch always_limited) = [3, 6, 9, 12, 15]
   \<and> content (fetch fourth_time_lucky) = Some (of_ascii ''<html>'')
   \<and> requests (fetch fourth_time_lucky) = 4
   \<and> sleeps (fetch fourth_time_lucky) = [3, 2, 1]"
proof -
  have f: "\<forall>k < 5. \<not> succeeds (always_limited k)"
    by (simp add: succeeds_def always_limited_def)
  from fetch_retry_policy [of always_limited] f
  have n: "content (fetch always_limited) = None"
    and a: "requests (fetch always_limited) = 5" by blast+
  have s: "sleeps (fetch always_limited) = [3, 6, 9, 12, 15]"
    by (simp add: fetch_def always_limited_def attempt_step_def try_body_def eval_nat_numeral)
  have l: "fetch fourth_time_lucky
      = \<lparr>content = Some (of_ascii ''<html>''), sleeps = [3, 2, 1], requests = 4\<rparr>"
    by (simp add: fetch_def fourth_time_lucky_def attempt_step_def try_body_def eval_nat_numeral)
  from fetch_retry_policy [of fourth_time_lucky] l
  have "length (sleeps (fetch fourth_time_lucky)) = requests (fetch fourth_time_lucky) - 1"
    by simp
  with n a s l show ?thesis by simp
qed



section \<open>Properties of \<open>normalize_game_name\<close>\<close>

lemma lower_ucs4_lowered:
  assumes "lower_closed db" "i < length s" "d \<in> set (lower_ucs4 db s i)"
  shows "is_lowered db d"
proof -
  let ?c = "s ! i"
  consider "?c = 931" | "?c \<noteq> 931" "?c < 128" | "?c \<noteq> 931" "128 \<le> ?c" by linarith
  then show ?thesis
  proof cases
    case 1
    with assms show ?thesis by (auto simp: lower_ucs4_def lower_closed_def Let_def split: if_splits)
  next
    case 2
    with assms show ?thesis by (auto simp: lower_ucs4_def is_lowered_def Let_def split: if_splits)
  next
    case 3
    with assms show ?thesis by (auto simp: lower_ucs4_def lower_closed_def Let_def)
  qed
qed

lemma lower_lowered:
  assumes "lower_closed db" "d \<in> set (lower db s)"
  shows "is_lowered db d"
  using assms lower_ucs4_lowered [of db _ s d] by (auto simp: lower_def)

lemma lower_fixed:
  assumes "\<forall>c \<in> set s. is_lowered db c"
  shows "lower db s = s"
proof -
  have "lower_ucs4 db s i = [s ! i]" if "i < length s" for i
  proof -
    from that assms have "is_lowered db (s ! i)" by simp
    then show ?thesis by (auto simp: lower_ucs4_def is_lowered_def Let_def split: if_splits)
  qed
  then have "map (lower_ucs4 db s) [0..<length s] = map (\<lambda>i. [s ! i]) [0..<length s]"
    by simp
  also have "concat \<dots> = map (\<lambda>i. s ! i) [0..<length s]"
    by (induction "[0..<length s]") (simp_all add: concat_map_singleton)
  finally show ?thesis by (simp add: lower_def map_nth)
qed

lemma lower_ascii:
  assumes "\<forall>c \<in> set s. c < 128"
  shows "lower db s = map ascii_lower s"
proof -
  have "lower_ucs4 db s i = [ascii_lower (s ! i)]" if "i < length s" for i
  proof -
    from that assms have "s ! i < 128" by simp
    then show ?thesis by (simp add: lower_ucs4_def ascii_lower_def Let_def)
  qed
  then have "map (lower_ucs4 db s) [0..<length s] = map (\<lambda>i. [ascii_lower (s ! i)]) [0..<length s]"
    by simp
  also have "concat \<dots> = map (\<lambda>i. ascii_lower (s ! i)) [0..<length s]"
    by (induction "[0..<length s]") (simp_all add: concat_map_singleton)
  also have "\<dots> = map ascii_lower (map (\<lambda>i. s ! i) [0..<length s])" by simp
  finally show ?thesis by (simp add: lower_def map_nth)
qed

lemma set_collapse_ws: "set (collapse_ws s) \<subseteq> insert 32 (set s)"
proof (induction s rule: collapse_ws.induct)
  case 1
  show ?case by simp
next
  case (2 c cs)
  show ?case
  proof (cases "is_space c")
    case True
    with 2 have "set (collapse_ws (dropWhile is_space cs)) \<subseteq> insert 32 (set (dropWhile is_space cs))"
      by simp
    moreover have "set (dropWhile is_space cs) \<subseteq> set cs"
      by (auto dest: set_dropWhileD)
    ultimately show ?thesis using True by auto
  next
    case False
    with 2 show ?thesis by auto
  qed
qed

lemma collapse_ws_head:
  "s \<noteq> [] \<Longrightarrow> \<not> is_space (hd s) \<Longrightarrow> collapse_ws s \<noteq> [] \<and> hd (collapse_ws s) = hd s"
  by (cases s) simp_all

lemma dropWhile_head: "dropWhile P xs = [] \<or> \<not> P (hd (dropWhile P xs))"
  using hd_dropWhile [of P xs] by blast

lemma tidy_Cons_space:
  "tidy t \<Longrightarrow> t = [] \<or> \<not> is_space (hd t) \<Longrightarrow> tidy (32 # t)"
  by (cases t) auto

lemma tidy_Cons_other: "tidy t \<Longrightarrow> \<not> is_space c \<Longrightarrow> tidy (c # t)"
  by (cases t) auto

lemma tidy_collapse_ws: "tidy (collapse_ws s)"
proof (induction s rule: collapse_ws.induct)
  case 1
  show ?case by simp
next
  case (2 c cs)
  show ?case
  proof (cases "is_space c")
    case True
    define r where "r = dropWhile is_space cs"
    from 2 True have t: "tidy (collapse_ws r)" by (simp add: r_def)
    have hr: "r = [] \<or> \<not> is_space (hd r)"
      unfolding r_def by (rule dropWhile_head)
    have "collapse_ws r = [] \<or> \<not> is_space (hd (collapse_ws r))"
    proof (cases "r = []")
      case True
      then show ?thesis by simp
    next
      case False
      with hr collapse_ws_head [of r] show ?thesis by simp
    qed
    with t have "tidy (32 # collapse_ws r)" by (rule tidy_Cons_space)
    with True show ?thesis by (simp add: r_def)
  next
    case False
    with 2 show ?thesis by (simp add: tidy_Cons_other)
  qed
qed

lemma collapse_ws_tidy: "tidy s \<Longrightarrow> collapse_ws s = s"
  by (induction s rule: tidy.induct) auto

lemma tidy_tail: "tidy (c # cs) \<Longrightarrow> tidy cs"
  by (cases cs) auto

lemma tidy_suffix: "tidy (a @ b) \<Longrightarrow> tidy b"
  by (induction a) (auto dest: tidy_tail)

lemma tidy_prefix: "tidy (a @ b) \<Longrightarrow> tidy a"
proof (induction a rule: tidy.induct)
  case 1
  show ?case by simp
next
  case (2 c)
  then show ?case by (cases b) auto
next
  case (3 c d cs)
  then show ?case by auto
qed

lemma strip_infix: "\<exists>p q. s = p @ strip s @ q"
proof -
  define t where "t = dropWhile is_space s"
  have "rev t = takeWhile is_space (rev t) @ dropWhile is_space (rev t)" by simp
  then have "rev (rev t) = rev (dropWhile is_space (rev t)) @ rev (takeWhile is_space (rev t))"
    by (metis rev_append)
  then have "t = strip s @ rev (takeWhile is_space (rev t))"
    by (simp add: strip_def t_def)
  moreover have "s = takeWhile is_space s @ t" by (simp add: t_def)
  ultimately show ?thesis by metis
qed

lemma set_strip: "set (strip s) \<subseteq> set s"
  using strip_infix [of s] by (metis Un_iff set_append subsetI)

lemma tidy_strip: "tidy s \<Longrightarrow> tidy (strip s)"
  using strip_infix [of s] by (metis tidy_prefix tidy_suffix)

lemma dropWhile_fixed: "xs = [] \<or> \<not> P (hd xs) \<Longrightarrow> dropWhile P xs = xs"
  by (cases xs) auto

lemma strip_strip: "strip (strip s) = strip s"
proof -
  define t where "t = dropWhile is_space s"
  define u where "u = dropWhile is_space (rev t)"
  have s: "strip s = rev u" by (simp add: strip_def t_def u_def)
  have u: "dropWhile is_space u = u" by (simp add: u_def)
  have ht: "t = [] \<or> \<not> is_space (hd t)"
    unfolding t_def by (rule dropWhile_head)
  have "rev t = takeWhile is_space (rev t) @ u" by (simp add: u_def)
  then have "rev (rev t) = rev u @ rev (takeWhile is_space (rev t))"
    by (metis rev_append)
  then have tu: "t = rev u @ rev (takeWhile is_space (rev t))" by simp
  have "rev u = [] \<or> \<not> is_space (hd (rev u))"
  proof (cases "rev u = []")
    case True
    then show ?thesis by simp
  next
    case False
    with tu have "hd t = hd (rev u)" and "t \<noteq> []" by (metis hd_append2, metis append_is_Nil_conv)
    with ht show ?thesis by simp
  qed
  then have "dropWhile is_space (rev u) = rev u" by (rule dropWhile_fixed)
  then have "strip (rev u) = rev (dropWhile is_space (rev (rev u)))"
    by (simp add: strip_def)
  also have "\<dots> = rev u" using u by simp
  finally show ?thesis by (simp add: s)
qed

lemma is_lowered_space: "is_lowered db 32"
  by (simp add: is_lowered_def)

lemma sample_db_closed: "lower_closed sample_db"
  by (auto simp: lower_closed_def is_lowered_def sample_db_def)













text \<open>
  C9. \<open>normalize_game_name\<close> is idempotent on every string, for every database whose
  lowercase mapping is closed.
\<close>

theorem normalize_game_name_idempotent:
  assumes "lower_closed db"
  shows "normalize_game_name db (normalize_game_name db s) = normalize_game_name db s"
proof (cases "s = [] \<or> normalize_game_name db s = []")
  case True
  then show ?thesis by (auto simp: normalize_game_name_def)
next
  case False
  define f where "f = filter (\<lambda>c. \<not> is_symbol c) (lower db s)"
  define n where "n = strip (collapse_ws f)"
  from False have n: "normalize_game_name db s = n" and ne: "n \<noteq> []"
    by (auto simp: normalize_game_name_def n_def f_def)
  have sub: "set n \<subseteq> insert 32 (set f)"
    unfolding n_def using set_strip [of "collapse_ws f"] set_collapse_ws [of f] by blast
  have low: "is_lowered db c" if "c \<in> set n" for c
  proof -
    from that sub have "c = 32 \<or> c \<in> set (lower db s)" by (auto simp: f_def)
    then show ?thesis using lower_lowered [OF assms] is_lowered_space by blast
  qed
  have sym: "\<not> is_symbol c" if "c \<in> set n" for c
  proof -
    from that sub have "c = 32 \<or> \<not> is_symbol c" by (auto simp: f_def)
    then show ?thesis by (auto simp: is_symbol_def)
  qed
  from low have l: "lower db n = n" by (intro lower_fixed) blast
  from sym have f: "filter (\<lambda>c. \<not> is_symbol c) n = n" by (intro filter_True) blast
  have "tidy n" unfolding n_def by (intro tidy_strip tidy_collapse_ws)
  then have c: "collapse_ws n = n" by (rule collapse_ws_tidy)
  have st: "strip n = n" unfolding n_def by (rule strip_strip)
  have "normalize_game_name db n = strip (collapse_ws (filter (\<lambda>c. \<not> is_symbol c) (lower db n)))"
    using ne by (simp only: normalize_game_name_def if_False)
  also have "\<dots> = n" by (simp only: l f c st)
  finally show ?thesis by (simp only: n)
qed

theorem normalize_game_name_idempotent_witness:
  "lower_closed sample_db
   \<and> normalize_game_name sample_db
        ([32, 9] @ of_ascii ''Caf'' @ [201] @ of_ascii '':  The  Game'' @ [8482, 160])
       = of_ascii ''caf'' @ [233] @ of_ascii '' the game''
   \<and> normalize_game_name sample_db (of_ascii ''caf'' @ [233] @ of_ascii '' the game'')
       = of_ascii ''caf'' @ [233] @ of_ascii '' the game''"
proof -
  have v: "normalize_game_name sample_db
        ([32, 9] @ of_ascii ''Caf'' @ [201] @ of_ascii '':  The  Game'' @ [8482, 160])
       = of_ascii ''caf'' @ [233] @ of_ascii '' the game''"
    by (simp add: normalize_game_name_def strip_def is_symbol_def is_space_def lower_def
        lower_ucs4_def of_ascii_def upt_rec [of _ "numeral _"] upt_rec [of 0 "numeral _"] Let_def
        sample_db_def)
  from normalize_game_name_idempotent [OF sample_db_closed,
      of "[32, 9] @ of_ascii ''Caf'' @ [201] @ of_ascii '':  The  Game'' @ [8482, 160]"]
  have "normalize_game_name sample_db (of_ascii ''caf'' @ [233] @ of_ascii '' the game'')
       = of_ascii ''caf'' @ [233] @ of_ascii '' the game''"
    unfolding v .
  with v sample_db_closed show ?thesis by blast
qed

section \<open>Synthetic names\<close>

text \<open>
  Past the \<open>if\<close>/\<open>elif\<close> chain of \<open>scrape_site\<close>, and in the loop of \<open>run\<close>, the
  site is one of three keys. The model carries it as a value of a three-element type;
  \<open>key\<close> gives the string back.
\<close>

datatype source = Steam | Gog | Gmg

fun key :: "source \<Rightarrow> pystr" where
  "key Steam = of_ascii ''steam''"
| "key Gog = of_ascii ''gog''"
| "key Gmg = of_ascii ''gmg''"

definition source_of :: "pystr \<Rightarrow> source option" where
  "source_of site =
     (if site = of_ascii ''steam'' then Some Steam
      else if site = of_ascii ''gog'' then Some Gog
      else if site = of_ascii ''gmg'' then Some Gmg
      else None)"

text \<open>\<open>str.upper()\<close>, on the ASCII strings it is applied to (the three keys).\<close>

definition upper_ascii :: "pystr \<Rightarrow> pystr" where
  "upper_ascii s = map (\<lambda>c. if 97 \<le> c \<and> c \<le> 122 then c - 32 else c) s"

text \<open>
  The names of the synthetic records: \<open>f"Exclusivo {site.upper()} Juego {n}"\<close> of the
  backfill, \<open>f"Timeout {site.upper()} Juego {n}"\<close> of \<open>run\<close>, and
  \<open>f"Juego {site.upper()} #{i+1}"\<close> of the handler of \<open>scrape_site\<close>; and their URLs.
\<close>

definition exclusive_name :: "source \<Rightarrow> nat \<Rightarrow> pystr" where
  "exclusive_name s n =
     of_ascii ''Exclusivo '' @ upper_ascii (key s) @ of_ascii '' Juego '' @ str_nat n"

definition timeout_name :: "source \<Rightarrow> nat \<Rightarrow> pystr" where
  "timeout_name s n =
     of_ascii ''Timeout '' @ upper_ascii (key s) @ of_ascii '' Juego '' @ str_nat n"

definition fallback_name :: "pystr \<Rightarrow> nat \<Rightarrow> pystr" where
  "fallback_name site i = of_ascii ''Juego '' @ upper_ascii site @ of_ascii '' #'' @ str_nat (i + 1)"

definition example_url :: "nat \<Rightarrow> pystr" where
  "example_url n = of_ascii ''https://example.com/game/'' @ str_nat n"

section \<open>Normal forms of the synthetic names\<close>

lemma str_nat_not_Nil: "str_nat n \<noteq> []"
  by (subst str_nat.simps) simp

lemma str_nat_digits: "c \<in> set (str_nat n) \<Longrightarrow> 48 \<le> c \<and> c \<le> 57"
proof (induction n rule: str_nat.induct)
  case (1 n)
  show ?case
  proof (cases "n < 10")
    case True
    with "1.prems" show ?thesis by (subst (asm) str_nat.simps) simp
  next
    case False
    from "1.prems" have "c \<in> set (str_nat (n div 10)) \<or> c = 48 + n mod 10"
      using False by (subst (asm) str_nat.simps) auto
    with "1.IH" False show ?thesis by auto
  qed
qed

lemma str_nat_inj: "str_nat n = str_nat m \<Longrightarrow> n = m"
proof (induction n arbitrary: m rule: str_nat.induct)
  case (1 n)
  show ?case
  proof (cases "n < 10")
    case n: True
    show ?thesis
    proof (cases "m < 10")
      case True
      with n "1.prems" show ?thesis by (simp add: str_nat.simps)
    next
      case False
      then have "str_nat m = str_nat (m div 10) @ [48 + m mod 10]"
        by (subst str_nat.simps) simp
      moreover from n have "str_nat n = [48 + n]" by (subst str_nat.simps) simp
      ultimately show ?thesis using "1.prems" str_nat_not_Nil [of "m div 10"] by simp
    qed
  next
    case n: False
    then have en: "str_nat n = str_nat (n div 10) @ [48 + n mod 10]"
      by (subst str_nat.simps) simp
    show ?thesis
    proof (cases "m < 10")
      case True
      then have "str_nat m = [48 + m]" by (subst str_nat.simps) simp
      with en show ?thesis using "1.prems" str_nat_not_Nil [of "n div 10"] by simp
    next
      case False
      then have "str_nat m = str_nat (m div 10) @ [48 + m mod 10]"
        by (subst str_nat.simps) simp
      with en "1.prems" have "str_nat (n div 10) = str_nat (m div 10)" and "n mod 10 = m mod 10"
        by simp_all
      with "1.IH" [OF n] have "n div 10 = m div 10" and "n mod 10 = m mod 10" by simp_all
      then show ?thesis by (metis div_mult_mod_eq)
    qed
  qed
qed

lemma collapse_ws_no_space: "\<forall>c \<in> set d. \<not> is_space c \<Longrightarrow> collapse_ws d = d"
  by (induction d) simp_all

lemma collapse_ws_append:
  assumes "\<forall>c \<in> set d. \<not> is_space c"
  shows "collapse_ws (x @ d) = collapse_ws x @ d"
proof (induction x rule: collapse_ws.induct)
  case 1
  from assms show ?case by (simp add: collapse_ws_no_space)
next
  case (2 c cs)
  show ?case
  proof (cases "is_space c")
    case False
    with 2 show ?thesis by simp
  next
    case True
    have d: "dropWhile is_space d = d" using assms by (cases d) simp_all
    show ?thesis
    proof (cases "\<forall>x \<in> set cs. is_space x")
      case all: True
      then have e1: "dropWhile is_space (cs @ d) = d" and e2: "dropWhile is_space cs = []"
        using d by (simp_all add: dropWhile_append2)
      have "collapse_ws ((c # cs) @ d) = 32 # collapse_ws (dropWhile is_space (cs @ d))"
        using True by simp
      also have "\<dots> = 32 # d"
        unfolding e1 using assms by (simp add: collapse_ws_no_space)
      finally have l: "collapse_ws ((c # cs) @ d) = 32 # d" .
      have "collapse_ws (c # cs) = 32 # collapse_ws (dropWhile is_space cs)"
        using True by simp
      also have "\<dots> = [32]" unfolding e2 by simp
      finally show ?thesis using l by simp
    next
      case False
      then obtain x where "x \<in> set cs" "\<not> is_space x" by blast
      then have "dropWhile is_space (cs @ d) = dropWhile is_space cs @ d"
        by (rule dropWhile_append1)
      with True 2 show ?thesis by simp
    qed
  qed
qed

lemma digit_plain: "48 \<le> c \<and> c \<le> 57 \<Longrightarrow> \<not> is_space c \<and> \<not> is_symbol c \<and> ascii_lower c = c \<and> c < 128"
  by (simp add: is_space_def is_symbol_def ascii_lower_def)

lemma normalize_digits_suffix:
  assumes p: "\<forall>c \<in> set p. c < 128"
    and q: "collapse_ws (filter (\<lambda>c. \<not> is_symbol c) (map ascii_lower p)) = q"
    and hq: "q \<noteq> []" "\<not> is_space (hd q)"
  shows "normalize_game_name db (p @ str_nat n) = q @ str_nat n"
proof -
  let ?d = "str_nat n"
  have dig: "\<forall>c \<in> set ?d. \<not> is_space c \<and> \<not> is_symbol c \<and> ascii_lower c = c \<and> c < 128"
    using str_nat_digits digit_plain by blast
  have ne: "?d \<noteq> []" by (rule str_nat_not_Nil)
  from p dig have "lower db (p @ ?d) = map ascii_lower (p @ ?d)"
    by (intro lower_ascii) auto
  also have "\<dots> = map ascii_lower p @ ?d"
    using dig by (simp add: map_idI)
  finally have l: "lower db (p @ ?d) = map ascii_lower p @ ?d" .
  have f: "filter (\<lambda>c. \<not> is_symbol c) (map ascii_lower p @ ?d)
      = filter (\<lambda>c. \<not> is_symbol c) (map ascii_lower p) @ ?d"
    using dig by simp
  have c: "collapse_ws (filter (\<lambda>c. \<not> is_symbol c) (map ascii_lower p) @ ?d) = q @ ?d"
    using dig q by (simp add: collapse_ws_append)
  have h: "dropWhile is_space (q @ ?d) = q @ ?d"
    using hq by (intro dropWhile_fixed) simp
  have "\<not> is_space (last ?d)" using dig ne last_in_set by blast
  then have "dropWhile is_space (rev (q @ ?d)) = rev (q @ ?d)"
    using ne by (intro dropWhile_fixed) (simp add: hd_rev)
  with h have s: "strip (q @ ?d) = q @ ?d" by (simp add: strip_def)
  from ne have "p @ ?d \<noteq> []" by simp
  then have "normalize_game_name db (p @ ?d)
      = strip (collapse_ws (filter (\<lambda>c. \<not> is_symbol c) (lower db (p @ ?d))))"
    by (simp only: normalize_game_name_def if_False)
  also have "\<dots> = q @ ?d" by (simp only: l f c s)
  finally show ?thesis .
qed

text \<open>What the three kinds of synthetic names normalise to.\<close>

definition exclusive_id :: "source \<Rightarrow> nat \<Rightarrow> pystr" where
  "exclusive_id s n = of_ascii ''exclusivo '' @ key s @ of_ascii '' juego '' @ str_nat n"

definition timeout_id :: "source \<Rightarrow> nat \<Rightarrow> pystr" where
  "timeout_id s n = of_ascii ''timeout '' @ key s @ of_ascii '' juego '' @ str_nat n"

definition fallback_id :: "source \<Rightarrow> nat \<Rightarrow> pystr" where
  "fallback_id s i = of_ascii ''juego '' @ key s @ of_ascii '' #'' @ str_nat (i + 1)"

lemma normalize_exclusive_name:
  "normalize_game_name db (exclusive_name s n) = exclusive_id s n"
proof -
  have "normalize_game_name db ((of_ascii ''Exclusivo '' @ upper_ascii (key s) @ of_ascii '' Juego '') @ str_nat n)
      = (of_ascii ''exclusivo '' @ key s @ of_ascii '' juego '') @ str_nat n"
    by (rule normalize_digits_suffix; cases s)
      (simp_all add: of_ascii_def upper_ascii_def ascii_lower_def is_symbol_def is_space_def)
  then show ?thesis by (simp add: exclusive_name_def exclusive_id_def)
qed

lemma normalize_timeout_name:
  "normalize_game_name db (timeout_name s n) = timeout_id s n"
proof -
  have "normalize_game_name db ((of_ascii ''Timeout '' @ upper_ascii (key s) @ of_ascii '' Juego '') @ str_nat n)
      = (of_ascii ''timeout '' @ key s @ of_ascii '' juego '') @ str_nat n"
    by (rule normalize_digits_suffix; cases s)
      (simp_all add: of_ascii_def upper_ascii_def ascii_lower_def is_symbol_def is_space_def)
  then show ?thesis by (simp add: timeout_name_def timeout_id_def)
qed

lemma normalize_fallback_name:
  "normalize_game_name db (fallback_name (key s) i) = fallback_id s i"
proof -
  have "normalize_game_name db ((of_ascii ''Juego '' @ upper_ascii (key s) @ of_ascii '' #'') @ str_nat (i + 1))
      = (of_ascii ''juego '' @ key s @ of_ascii '' #'') @ str_nat (i + 1)"
    by (rule normalize_digits_suffix; cases s)
      (simp_all add: of_ascii_def upper_ascii_def ascii_lower_def is_symbol_def is_space_def)
  then show ?thesis by (simp add: fallback_name_def fallback_id_def)
qed

lemma exclusive_id_inj: "exclusive_id s n = exclusive_id s m \<Longrightarrow> n = m"
  by (simp add: exclusive_id_def str_nat_inj)

lemma timeout_id_inj: "timeout_id s n = timeout_id s m \<Longrightarrow> n = m"
  by (simp add: timeout_id_def str_nat_inj)

section \<open>\<open>scrape_site\<close>\<close>

text \<open>
  A record of the output. The orchestrator reads the name only; the site and the URL are
  kept as well. The other fields of the dictionaries (prices, rating, platforms, image,
  distribution type, hours) are constants or random draws that no decision of the
  orchestrator depends on, and are left out.
\<close>

record game =
  name :: pystr
  site :: pystr
  url :: pystr

text \<open>
  The operations that reach the network: the call of a seeder, which fetches listing
  pages, and the dispatch of a worker task for one URL, which fetches and parses it.
\<close>

datatype op = Discover source | Dispatch source pystr

text \<open>
  What the world does during a run. \<open>seed_urls s\<close> is the list the seeder of the site
  returns. \<open>done_results s k batch\<close> are the results of the tasks of the \<open>k\<close>-th batch
  that completed within the time limit of \<open>asyncio.wait\<close>, in the order the loop meets
  them (a worker returns a record or \<open>None\<close> and never raises).
  \<open>before_deadline s k\<close> is the outcome of \<open>time.time() < deadline\<close> at the \<open>k\<close>-th
  test of the loop condition, and \<open>expired s\<close> that of \<open>time.time() >= deadline\<close> when
  the loop of \<open>run\<close> reaches the site.
\<close>

record world =
  seed_urls :: "source \<Rightarrow> pystr list"
  done_results :: "source \<Rightarrow> nat \<Rightarrow> pystr list \<Rightarrow> game option list"
  before_deadline :: "source \<Rightarrow> nat \<Rightarrow> bool"
  expired :: "source \<Rightarrow> bool"

text \<open>
  The variables of \<open>scrape_site\<close>; \<open>existing_games\<close> is the set shared with the caller,
  which the function mutates in place, and \<open>ops\<close> collects the operations performed.
\<close>

record harvest_state =
  results :: "game list"
  seen_names :: "pystr fset"
  existing_games :: "pystr fset"
  idx :: nat
  attempts :: nat
  ops :: "op list"

text \<open>The body of \<open>for task in done\<close>, for one task result.\<close>

definition accept :: "unicode_db \<Rightarrow> harvest_state \<Rightarrow> game option \<Rightarrow> harvest_state" where
  "accept db st r =
     (case r of
        None \<Rightarrow> st
      | Some g \<Rightarrow>
          if name g = [] then st
          else let normalized_name = normalize_game_name db (name g) in
            if normalized_name |\<notin>| seen_names st \<and> normalized_name |\<notin>| existing_games st
            then st\<lparr>results := results st @ [g],
                    seen_names := finsert normalized_name (seen_names st),
                    existing_games := finsert normalized_name (existing_games st)\<rparr>
            else st)"

lemma accept_idx: "idx (accept db st r) = idx st"
  by (simp add: accept_def Let_def split: option.splits)

lemma foldl_accept_idx: "idx (foldl (accept db) st rs) = idx st"
  by (induction rs arbitrary: st) (simp_all add: accept_idx)

text \<open>
  The \<open>while\<close> loop, at its \<open>k\<close>-th iteration. \<open>asyncio.wait\<close> raises \<open>ValueError\<close>
  on an empty list of tasks, which is what a concurrency of zero gives.
\<close>

function harvest ::
  "unicode_db \<Rightarrow> world \<Rightarrow> source \<Rightarrow> nat \<Rightarrow> nat \<Rightarrow> pystr list \<Rightarrow> nat \<Rightarrow> harvest_state
     \<Rightarrow> (exc \<times> harvest_state) + harvest_state" where
  "harvest db w s target concurrency seeds k st =
     (if length (results st) < target \<and> idx st < length seeds \<and> before_deadline w s k
         \<and> attempts st < length seeds
      then
        let batch_size = min (concurrency * 3) (length seeds - idx st);
            batch = take batch_size (drop (idx st) seeds);
            st1 = st\<lparr>idx := idx st + batch_size,
                     attempts := attempts st + length batch,
                     ops := ops st @ map (Dispatch s) batch\<rparr>
        in if batch = [] then Inl (ValueError, st1)
           else
             let st2 = foldl (accept db) st1 (done_results w s k batch)
             in if target \<le> length (results st2) then Inr st2
                else harvest db w s target concurrency seeds (k + 1) st2
      else Inr st)"
  by pat_completeness auto
termination
  by (relation "measure (\<lambda>(db, w, s, target, concurrency, seeds, k, st). length seeds - idx st)")
    (auto simp: foldl_accept_idx min_def)

declare harvest.simps [simp del]

text \<open>
  The \<open>while True\<close> loop of the backfill: the first counter from \<open>c\<close> on whose
  normalised name is in neither set. It ends because the names of distinct counters have
  distinct normal forms and the sets are finite.
\<close>

lemma search_decreases:
  assumes "\<And>n m. f n = f m \<Longrightarrow> n = m" and "f c |\<in>| S"
  shows "card {k. Suc c \<le> k \<and> f k |\<in>| S} < card {k. c \<le> k \<and> f k |\<in>| S}"
proof -
  have "inj f" using assms(1) by (auto simp: inj_def)
  then have "finite (f -` fset S)" by (intro finite_vimageI) simp_all
  then have fin: "finite {k. c \<le> k \<and> f k |\<in>| S}"
    by (rule rev_finite_subset) auto
  have "{k. Suc c \<le> k \<and> f k |\<in>| S} \<subseteq> {k. c \<le> k \<and> f k |\<in>| S}"
    by auto
  moreover have "c \<in> {k. c \<le> k \<and> f k |\<in>| S}" and "c \<notin> {k. Suc c \<le> k \<and> f k |\<in>| S}"
    using assms(2) by simp_all
  ultimately have "{k. Suc c \<le> k \<and> f k |\<in>| S} \<subset> {k. c \<le> k \<and> f k |\<in>| S}"
    by blast
  with fin show ?thesis by (rule psubset_card_mono)
qed

function next_exclusive :: "unicode_db \<Rightarrow> source \<Rightarrow> pystr fset \<Rightarrow> pystr fset \<Rightarrow> nat \<Rightarrow> nat" where
  "next_exclusive db s seen existing c =
     (let normalized_synthetic = normalize_game_name db (exclusive_name s c) in
      if normalized_synthetic |\<notin>| seen \<and> normalized_synthetic |\<notin>| existing then c
      else next_exclusive db s seen existing (c + 1))"
  by pat_completeness auto
termination
proof (relation "measure (\<lambda>(db, s, seen, existing, c).
    card {k. c \<le> k \<and> exclusive_id s k |\<in>| seen |\<union>| existing})", goal_cases)
  case 1
  show ?case by simp
next
  case (2 db s seen existing c n)
  then have "exclusive_id s c |\<in>| seen |\<union>| existing"
    by (auto simp: normalize_exclusive_name)
  with search_decreases [of "exclusive_id s" c "seen |\<union>| existing"] exclusive_id_inj
  show ?case by auto
qed

declare next_exclusive.simps [simp del]

text \<open>The backfill: \<open>n\<close> more synthetic records, the counter starting at \<open>counter\<close>.\<close>

fun backfill :: "unicode_db \<Rightarrow> source \<Rightarrow> nat \<Rightarrow> nat \<Rightarrow> harvest_state \<Rightarrow> harvest_state" where
  "backfill db s 0 counter st = st"
| "backfill db s (Suc n) counter st =
     (let c = next_exclusive db s (seen_names st) (existing_games st) counter;
          normalized_synthetic = normalize_game_name db (exclusive_name s c);
          synthetic = \<lparr>name = exclusive_name s c, site = key s, url = example_url c\<rparr>
      in backfill db s n (c + 1)
           (st\<lparr>results := results st @ [synthetic],
               seen_names := finsert normalized_synthetic (seen_names st),
               existing_games := finsert normalized_synthetic (existing_games st)\<rparr>))"

text \<open>The list the \<open>except\<close> clause of \<open>scrape_site\<close> builds.\<close>

definition fallback_records :: "pystr \<Rightarrow> nat \<Rightarrow> game list" where
  "fallback_records site_key target =
     map (\<lambda>i. \<lparr>name = fallback_name site_key i, site = site_key, url = example_url i\<rparr>) [0..<target]"

text \<open>What a call leaves behind: the list returned, the shared set, the operations performed.\<close>

record outcome =
  returned :: "game list"
  shared :: "pystr fset"
  performed :: "op list"

text \<open>
  The \<open>try\<close> block of \<open>scrape_site\<close>. A raise carries the state it happens in, since the
  shared set is mutated in place. \<open>asyncio.Semaphore\<close> raises \<open>ValueError\<close> on a
  negative value. The quota is a count, as the values of \<open>TARGET\<close> are, and a natural
  number here; the concurrency comes from the command line and is any integer.
  \<open>try_scrape\<close> and \<open>scrape_site\<close> are the function on a console that prints every
  message; \<open>scrape_site_console\<close> below is the function with its \<open>print\<close> statements,
  each a point where it may raise.
\<close>

definition try_scrape ::
  "unicode_db \<Rightarrow> world \<Rightarrow> pystr \<Rightarrow> nat \<Rightarrow> int \<Rightarrow> pystr fset \<Rightarrow> (exc \<times> harvest_state) + outcome" where
  "try_scrape db w site_key target concurrency existing =
     (case source_of site_key of
        None \<Rightarrow> Inr \<lparr>returned = [], shared = existing, performed = []\<rparr>
      | Some s \<Rightarrow>
          let seeds = seed_urls w s;
              st0 = \<lparr>results = [], seen_names = {||}, existing_games = existing,
                     idx = 0, attempts = 0, ops = [Discover s]\<rparr>
          in if seeds = [] then Inr \<lparr>returned = [], shared = existing, performed = [Discover s]\<rparr>
             else if concurrency < 0 then Inl (ValueError, st0)
             else
               case harvest db w s target (nat concurrency) seeds 0 st0 of
                 Inl raised \<Rightarrow> Inl raised
               | Inr st \<Rightarrow>
                   let st' = (if length (results st) < target
                              then backfill db s (target - length (results st)) 1 st else st)
                   in Inr \<lparr>returned = take target (results st'),
                           shared = existing_games st', performed = ops st'\<rparr>)"

definition scrape_site ::
  "unicode_db \<Rightarrow> world \<Rightarrow> pystr \<Rightarrow> nat \<Rightarrow> int \<Rightarrow> pystr fset \<Rightarrow> outcome" where
  "scrape_site db w site_key target concurrency existing =
     (case try_scrape db w site_key target concurrency existing of
        Inl (e, st) \<Rightarrow>
          \<lparr>returned = fallback_records site_key target,
           shared = existing_games st, performed = ops st\<rparr>
      | Inr out \<Rightarrow> out)"

text \<open>
  The four \<open>print\<close> statements of \<open>scrape_site\<close>: the start of the site, the number of
  URLs found (its message has a check mark), no URL found (a warning sign), and, first in
  the \<open>except\<close> clause, the error (a cross). A console tells for each whether printing
  succeeds or which exception it raises: \<open>UnicodeEncodeError\<close> when the encoding of the
  output stream lacks the sign of the message, \<open>OSError\<close> when the stream is broken.
\<close>

datatype message = Starting | Found | NotFound | Failed

type_synonym console = "message \<Rightarrow> exc option"

text \<open>
  The \<open>try\<close> block with its three \<open>print\<close> statements. A failing \<open>print\<close> raises inside
  the block, like the two library calls.
\<close>

definition try_scrape_console ::
  "console \<Rightarrow> unicode_db \<Rightarrow> world \<Rightarrow> pystr \<Rightarrow> nat \<Rightarrow> int \<Rightarrow> pystr fset
     \<Rightarrow> (exc \<times> harvest_state) + outcome" where
  "try_scrape_console con db w site_key target concurrency existing =
     (let st = \<lparr>results = [], seen_names = {||}, existing_games = existing,
                idx = 0, attempts = 0, ops = []\<rparr>
      in case con Starting of
        Some e \<Rightarrow> Inl (e, st)
      | None \<Rightarrow>
         (case source_of site_key of
            None \<Rightarrow> Inr \<lparr>returned = [], shared = existing, performed = []\<rparr>
          | Some s \<Rightarrow>
              let seeds = seed_urls w s;
                  st0 = st\<lparr>ops := [Discover s]\<rparr>
              in case con Found of
                Some e \<Rightarrow> Inl (e, st0)
              | None \<Rightarrow>
                  if seeds = [] then
                    (case con NotFound of
                       Some e \<Rightarrow> Inl (e, st0)
                     | None \<Rightarrow> Inr \<lparr>returned = [], shared = existing, performed = [Discover s]\<rparr>)
                  else if concurrency < 0 then Inl (ValueError, st0)
                  else
                    case harvest db w s target (nat concurrency) seeds 0 st0 of
                      Inl raised \<Rightarrow> Inl raised
                    | Inr st \<Rightarrow>
                        let st' = (if length (results st) < target
                                   then backfill db s (target - length (results st)) 1 st else st)
                        in Inr \<lparr>returned = take target (results st'),
                                shared = existing_games st', performed = ops st'\<rparr>))"

text \<open>
  The whole function. The \<open>except\<close> clause prints before it builds its list, and nothing
  guards that \<open>print\<close>: when it raises, the exception leaves \<open>scrape_site\<close>.
\<close>

definition scrape_site_console ::
  "console \<Rightarrow> unicode_db \<Rightarrow> world \<Rightarrow> pystr \<Rightarrow> nat \<Rightarrow> int \<Rightarrow> pystr fset \<Rightarrow> exc + outcome" where
  "scrape_site_console con db w site_key target concurrency existing =
     (case try_scrape_console con db w site_key target concurrency existing of
        Inl (e, st) \<Rightarrow>
          (case con Failed of
             Some e' \<Rightarrow> Inl e'
           | None \<Rightarrow>
               Inr \<lparr>returned = fallback_records site_key target,
                    shared = existing_games st, performed = ops st\<rparr>)
      | Inr out \<Rightarrow> Inr out)"

text \<open>
  A console whose stream is encoded in a legacy code page such as cp1252, which has none
  of the three signs: only the first message, plain text, is printed.
\<close>

definition legacy_console :: console where
  "legacy_console m = (if m = Starting then None else Some UnicodeEncodeError)"

section \<open>\<open>run\<close>\<close>

definition TARGET :: "source \<Rightarrow> nat" where
  "TARGET s = (case s of Steam \<Rightarrow> 80 | Gog \<Rightarrow> 80 | Gmg \<Rightarrow> 50)"

record run_state =
  all_results :: "game list"
  all_existing :: "pystr fset"
  all_ops :: "op list"

function next_timeout :: "unicode_db \<Rightarrow> source \<Rightarrow> pystr fset \<Rightarrow> nat \<Rightarrow> nat" where
  "next_timeout db s existing c =
     (let normalized = normalize_game_name db (timeout_name s c) in
      if normalized |\<notin>| existing then c
      else next_timeout db s existing (c + 1))"
  by pat_completeness auto
termination
proof (relation "measure (\<lambda>(db, s, existing, c).
    card {k. c \<le> k \<and> timeout_id s k |\<in>| existing})", goal_cases)
  case 1
  show ?case by simp
next
  case (2 db s existing c n)
  then have "timeout_id s c |\<in>| existing"
    by (auto simp: normalize_timeout_name)
  with search_decreases [of "timeout_id s" c existing] timeout_id_inj
  show ?case by auto
qed

declare next_timeout.simps [simp del]

text \<open>The branch of \<open>run\<close> for a site reached after the deadline: \<open>n\<close> more records.\<close>

fun timeout_fill :: "unicode_db \<Rightarrow> source \<Rightarrow> nat \<Rightarrow> nat \<Rightarrow> run_state \<Rightarrow> run_state" where
  "timeout_fill db s 0 counter rs = rs"
| "timeout_fill db s (Suc n) counter rs =
     (let c = next_timeout db s (all_existing rs) counter;
          normalized = normalize_game_name db (timeout_name s c);
          synthetic = \<lparr>name = timeout_name s c, site = key s, url = example_url c\<rparr>
      in timeout_fill db s n (c + 1)
           (rs\<lparr>all_results := all_results rs @ [synthetic],
               all_existing := finsert normalized (all_existing rs)\<rparr>))"

text \<open>
  The body of \<open>for site in ["steam", "gog", "gmg"]\<close>, and the loop, on a console that
  prints every message: there \<open>scrape_site\<close> raises nothing, so the loop does not
  either. The handler of \<open>run\<close> itself, which guards the set-up of the session, the
  banner and the writing of the files, is not modelled.
\<close>

definition run_site :: "unicode_db \<Rightarrow> world \<Rightarrow> int \<Rightarrow> run_state \<Rightarrow> source \<Rightarrow> run_state" where
  "run_site db w concurrency rs s =
     (if expired w s then timeout_fill db s (TARGET s) 1 rs
      else
        let site_results = scrape_site db w (key s) (TARGET s) concurrency (all_existing rs)
        in \<lparr>all_results = all_results rs @ returned site_results,
            all_existing = shared site_results,
            all_ops = all_ops rs @ performed site_results\<rparr>)"

definition run :: "unicode_db \<Rightarrow> world \<Rightarrow> int \<Rightarrow> run_state" where
  "run db w concurrency =
     foldl (run_site db w concurrency)
       \<lparr>all_results = [], all_existing = {||}, all_ops = []\<rparr> [Steam, Gog, Gmg]"

section \<open>Properties of \<open>scrape_site\<close>\<close>

lemma foldl_accept_invariant:
  assumes "P st" and "\<And>st r. P st \<Longrightarrow> P (accept db st r)"
  shows "P (foldl (accept db) st rs)"
  using assms(1) by (induction rs arbitrary: st) (simp_all add: assms(2))

lemma harvest_stop:
  assumes "\<not> (length (results st) < target \<and> idx st < length seeds \<and> before_deadline w s k
         \<and> attempts st < length seeds)"
  shows "harvest db w s target concurrency seeds k st = Inr st"
proof -
  have "(if length (results st) < target \<and> idx st < length seeds \<and> before_deadline w s k
         \<and> attempts st < length seeds then x else Inr st) = Inr st" for x :: "(exc \<times> harvest_state) + harvest_state"
    using assms by (rule if_not_P)
  then show ?thesis by (subst harvest.simps)
qed

lemma harvest_step:
  assumes "length (results st) < target \<and> idx st < length seeds \<and> before_deadline w s k
         \<and> attempts st < length seeds"
    and "batch_size = min (concurrency * 3) (length seeds - idx st)"
    and "batch = take batch_size (drop (idx st) seeds)"
    and "st1 = st\<lparr>idx := idx st + batch_size,
                     attempts := attempts st + length batch,
                     ops := ops st @ map (Dispatch s) batch\<rparr>"
    and "st2 = foldl (accept db) st1 (done_results w s k batch)"
  shows "harvest db w s target concurrency seeds k st =
        (if batch = [] then Inl (ValueError, st1)
         else if target \<le> length (results st2) then Inr st2
         else harvest db w s target concurrency seeds (k + 1) st2)"
  unfolding assms(2-5)
  by (subst harvest.simps) (simp only: assms(1) simp_thms if_True Let_def)

text \<open>
  A property of the state that every acceptance and every update of the counters keep
  holds when the loop ends normally.
\<close>

lemma harvest_invariant:
  assumes upd: "\<And>st i a l. P st \<Longrightarrow> P (st\<lparr>idx := i, attempts := a, ops := ops st @ l\<rparr>)"
  shows "(\<And>st r. P st \<Longrightarrow> P (accept db st r)) \<Longrightarrow> P st
    \<Longrightarrow> harvest db w s target concurrency seeds k st = Inr st' \<Longrightarrow> P st'"
proof (induction db w s target concurrency seeds k st rule: harvest.induct)
  case (1 db w s target concurrency seeds k st)
  note acc = "1.prems"(1)
  let ?go = "length (results st) < target \<and> idx st < length seeds \<and> before_deadline w s k
         \<and> attempts st < length seeds"
  show ?case
  proof (cases ?go)
    case False
    with "1.prems" show ?thesis by (simp add: harvest_stop)
  next
    case True
    define batch_size where "batch_size = min (concurrency * 3) (length seeds - idx st)"
    define batch where "batch = take batch_size (drop (idx st) seeds)"
    define st1 where "st1 = st\<lparr>idx := idx st + batch_size,
                     attempts := attempts st + length batch,
                     ops := ops st @ map (Dispatch s) batch\<rparr>"
    define st2 where "st2 = foldl (accept db) st1 (done_results w s k batch)"
    have p1: "P st1" unfolding st1_def using "1.prems"(2) by (rule upd)
    have p2: "P st2" unfolding st2_def using p1 acc by (rule foldl_accept_invariant)
    have h: "harvest db w s target concurrency seeds k st =
        (if batch = [] then Inl (ValueError, st1)
         else if target \<le> length (results st2) then Inr st2
         else harvest db w s target concurrency seeds (k + 1) st2)"
      using True batch_size_def batch_def st1_def st2_def by (rule harvest_step)
    show ?thesis
    proof (cases "batch = []")
      case True
      with h "1.prems" show ?thesis by simp
    next
      case ne: False
      show ?thesis
      proof (cases "target \<le> length (results st2)")
        case True
        with h ne "1.prems" p2 show ?thesis by simp
      next
        case False
        with h ne "1.prems" have "harvest db w s target concurrency seeds (k + 1) st2 = Inr st'"
          by simp
        with "1.IH" [OF \<open>?go\<close> batch_size_def batch_def st1_def ne st2_def False acc p2]
        show ?thesis by simp
      qed
    qed
  qed
qed

text \<open>With a positive concurrency the loop never raises; with concurrency zero it raises at
  its first iteration, or does not iterate.\<close>

lemma harvest_positive:
  "0 < concurrency \<Longrightarrow> \<exists>st'. harvest db w s target concurrency seeds k st = Inr st'"
proof (induction db w s target concurrency seeds k st rule: harvest.induct)
  case (1 db w s target concurrency seeds k st)
  let ?go = "length (results st) < target \<and> idx st < length seeds \<and> before_deadline w s k
         \<and> attempts st < length seeds"
  show ?case
  proof (cases ?go)
    case False
    then show ?thesis by (simp add: harvest_stop)
  next
    case True
    define batch_size where "batch_size = min (concurrency * 3) (length seeds - idx st)"
    define batch where "batch = take batch_size (drop (idx st) seeds)"
    define st1 where "st1 = st\<lparr>idx := idx st + batch_size,
                     attempts := attempts st + length batch,
                     ops := ops st @ map (Dispatch s) batch\<rparr>"
    define st2 where "st2 = foldl (accept db) st1 (done_results w s k batch)"
    from True "1.prems" have "0 < batch_size" by (simp add: batch_size_def)
    with True have ne: "batch \<noteq> []" by (simp add: batch_def)
    have h: "harvest db w s target concurrency seeds k st =
        (if target \<le> length (results st2) then Inr st2
         else harvest db w s target concurrency seeds (k + 1) st2)"
      using harvest_step [OF True batch_size_def batch_def st1_def st2_def] ne by simp
    show ?thesis
    proof (cases "target \<le> length (results st2)")
      case True
      with h show ?thesis by simp
    next
      case False
      with h "1.IH" [OF \<open>?go\<close> batch_size_def batch_def st1_def ne st2_def False "1.prems"]
      show ?thesis by simp
    qed
  qed
qed

lemma harvest_zero:
  "harvest db w s target 0 seeds k st = Inl (e, st') \<Longrightarrow>
     e = ValueError \<and> existing_games st' = existing_games st \<and> results st' = results st
     \<and> ops st' = ops st"
  "harvest db w s target 0 seeds k st = Inr st' \<Longrightarrow> st' = st"
proof -
  let ?go = "length (results st) < target \<and> idx st < length seeds \<and> before_deadline w s k
         \<and> attempts st < length seeds"
  have h: "harvest db w s target 0 seeds k st =
      (if ?go then Inl (ValueError, st\<lparr>idx := idx st + 0, attempts := attempts st + 0,
                                       ops := ops st @ []\<rparr>) else Inr st)"
  proof (cases ?go)
    case True
    from harvest_step [OF True refl refl refl refl, where concurrency = 0 and db = db] True
    show ?thesis by simp
  next
    case False
    from harvest_stop [OF False] False show ?thesis by simp
  qed
  show "harvest db w s target 0 seeds k st = Inl (e, st') \<Longrightarrow>
     e = ValueError \<and> existing_games st' = existing_games st \<and> results st' = results st
     \<and> ops st' = ops st"
    unfolding h by (auto split: if_splits)
  show "harvest db w s target 0 seeds k st = Inr st' \<Longrightarrow> st' = st"
    unfolding h by (auto split: if_splits)
qed

lemma harvest_raises:
  assumes "harvest db w s target concurrency seeds k st = Inl (e, st')"
  shows "concurrency = 0 \<and> e = ValueError \<and> existing_games st' = existing_games st
         \<and> ops st' = ops st"
proof (cases "concurrency = 0")
  case True
  with assms harvest_zero(1) show ?thesis by blast
next
  case False
  with harvest_positive [of concurrency db w s target seeds k st] assms show ?thesis by auto
qed

text \<open>The normalised identity of a record.\<close>

definition identity :: "unicode_db \<Rightarrow> game \<Rightarrow> pystr" where
  "identity db g = normalize_game_name db (name g)"

text \<open>
  The records accepted so far are fresh with respect to the set \<open>E0\<close> the call started
  with: their identities are pairwise distinct, none was in \<open>E0\<close>, all are in the shared
  set now, and the shared set has only grown.
\<close>

definition fresh :: "unicode_db \<Rightarrow> pystr fset \<Rightarrow> harvest_state \<Rightarrow> bool" where
  "fresh db E0 st \<longleftrightarrow>
     distinct (map (identity db) (results st))
     \<and> (\<forall>g \<in> set (results st). identity db g |\<notin>| E0 \<and> identity db g |\<in>| existing_games st)
     \<and> E0 |\<subseteq>| existing_games st"

lemma fresh_append:
  assumes "fresh db E0 st" and "n = identity db g" and "n |\<notin>| existing_games st"
  shows "fresh db E0 (st\<lparr>results := results st @ [g], seen_names := finsert n (seen_names st),
                         existing_games := finsert n (existing_games st)\<rparr>)"
proof -
  from assms have "n \<notin> identity db ` set (results st)" and "n |\<notin>| E0"
    by (auto simp: fresh_def)
  with assms show ?thesis by (auto simp: fresh_def)
qed

lemma accept_fresh: "fresh db E0 st \<Longrightarrow> fresh db E0 (accept db st r)"
proof (cases r)
  case None
  then show "fresh db E0 st \<Longrightarrow> ?thesis" by (simp add: accept_def)
next
  case (Some g)
  assume f: "fresh db E0 st"
  show ?thesis
  proof (cases "name g \<noteq> [] \<and> identity db g |\<notin>| seen_names st \<and> identity db g |\<notin>| existing_games st")
    case True
    with fresh_append [OF f refl, where g = g] Some show ?thesis
      by (simp add: accept_def identity_def Let_def)
  next
    case False
    with f Some show ?thesis by (auto simp: accept_def identity_def Let_def)
  qed
qed

lemma fresh_counters: "fresh db E0 st \<Longrightarrow> fresh db E0 (st\<lparr>idx := i, attempts := a, ops := l\<rparr>)"
  by (simp add: fresh_def)

lemma harvest_fresh:
  "fresh db E0 st \<Longrightarrow> harvest db w s target concurrency seeds k st = Inr st' \<Longrightarrow> fresh db E0 st'"
  by (rule harvest_invariant [where P = "fresh db E0"]) (simp_all add: fresh_counters accept_fresh)

lemma next_exclusive_free:
  "exclusive_id s (next_exclusive db s seen existing c) |\<notin>| seen
   \<and> exclusive_id s (next_exclusive db s seen existing c) |\<notin>| existing"
proof (induction db s seen existing c rule: next_exclusive.induct)
  case (1 db s seen existing c)
  show ?case
  proof (cases "exclusive_id s c |\<notin>| seen \<and> exclusive_id s c |\<notin>| existing")
    case True
    then have "next_exclusive db s seen existing c = c"
      by (subst next_exclusive.simps) (simp add: normalize_exclusive_name)
    with True show ?thesis by simp
  next
    case False
    then have "next_exclusive db s seen existing c = next_exclusive db s seen existing (c + 1)"
      by (subst next_exclusive.simps) (auto simp: normalize_exclusive_name)
    with "1.IH" [OF refl] False show ?thesis by (auto simp: normalize_exclusive_name)
  qed
qed

lemma backfill_fresh: "fresh db E0 st \<Longrightarrow> fresh db E0 (backfill db s n c st)"
proof (induction n arbitrary: c st)
  case 0
  then show ?case by simp
next
  case (Suc n)
  define k where "k = next_exclusive db s (seen_names st) (existing_games st) c"
  define g where "g = \<lparr>name = exclusive_name s k, site = key s, url = example_url k\<rparr>"
  have i: "identity db g = exclusive_id s k"
    by (simp add: identity_def g_def normalize_exclusive_name)
  have "exclusive_id s k |\<notin>| existing_games st"
    unfolding k_def using next_exclusive_free by blast
  with fresh_append [OF Suc.prems, where n = "exclusive_id s k" and g = g] i
  have "fresh db E0 (st\<lparr>results := results st @ [g],
      seen_names := finsert (exclusive_id s k) (seen_names st),
      existing_games := finsert (exclusive_id s k) (existing_games st)\<rparr>)" by simp
  from Suc.IH [OF this, of "k + 1"] show ?case
    by (simp add: Let_def k_def g_def normalize_exclusive_name)
qed

lemma backfill_length: "length (results (backfill db s n c st)) = length (results st) + n"
  by (induction n arbitrary: c st) (simp_all add: Let_def)

lemma backfill_ops: "ops (backfill db s n c st) = ops st"
  by (induction n arbitrary: c st) (simp_all add: Let_def)

lemma length_fallback_records: "length (fallback_records site_key target) = target"
  by (simp add: fallback_records_def)

text \<open>The normal end of the \<open>try\<close> block, past the two early returns.\<close>

definition finish :: "unicode_db \<Rightarrow> source \<Rightarrow> nat \<Rightarrow> harvest_state \<Rightarrow> outcome" where
  "finish db s target st =
     (let st' = (if length (results st) < target
                 then backfill db s (target - length (results st)) 1 st else st)
      in \<lparr>returned = take target (results st'),
          shared = existing_games st', performed = ops st'\<rparr>)"

lemma finish_length: "length (returned (finish db s target st)) = target"
  by (simp add: finish_def Let_def backfill_length)

lemma finish_fresh:
  assumes "fresh db E0 st"
  shows "distinct (map (identity db) (returned (finish db s target st)))"
    and "\<forall>g \<in> set (returned (finish db s target st)).
           identity db g |\<notin>| E0 \<and> identity db g |\<in>| shared (finish db s target st)"
    and "E0 |\<subseteq>| shared (finish db s target st)"
proof -
  define st' where "st' = (if length (results st) < target
                 then backfill db s (target - length (results st)) 1 st else st)"
  have f: "fresh db E0 st'" using assms by (simp add: st'_def backfill_fresh)
  have r: "returned (finish db s target st) = take target (results st')"
    and e: "shared (finish db s target st) = existing_games st'"
    by (simp_all add: finish_def st'_def Let_def)
  from f have "distinct (map (identity db) (results st'))" by (simp add: fresh_def)
  then show "distinct (map (identity db) (returned (finish db s target st)))"
    unfolding r by (simp add: take_map [symmetric])
  from f show "\<forall>g \<in> set (returned (finish db s target st)).
           identity db g |\<notin>| E0 \<and> identity db g |\<in>| shared (finish db s target st)"
    unfolding r e by (auto simp: fresh_def dest: in_set_takeD)
  from f show "E0 |\<subseteq>| shared (finish db s target st)"
    unfolding e by (simp add: fresh_def)
qed

text \<open>The four ways through the \<open>try\<close> block.\<close>

lemma try_scrape_cases:
  "try_scrape db w site_key target concurrency existing =
     (case source_of site_key of
        None \<Rightarrow> Inr \<lparr>returned = [], shared = existing, performed = []\<rparr>
      | Some s \<Rightarrow>
          if seed_urls w s = [] then Inr \<lparr>returned = [], shared = existing, performed = [Discover s]\<rparr>
          else if concurrency < 0
            then Inl (ValueError, \<lparr>results = [], seen_names = {||}, existing_games = existing,
                          idx = 0, attempts = 0, ops = [Discover s]\<rparr>)
          else case harvest db w s target (nat concurrency) (seed_urls w s) 0
                 \<lparr>results = [], seen_names = {||}, existing_games = existing,
                  idx = 0, attempts = 0, ops = [Discover s]\<rparr> of
                 Inl raised \<Rightarrow> Inl raised
               | Inr st \<Rightarrow> Inr (finish db s target st))"
  by (simp add: try_scrape_def finish_def Let_def split: option.splits sum.splits)

lemma fresh_initial:
  "fresh db existing \<lparr>results = [], seen_names = {||}, existing_games = existing,
                  idx = 0, attempts = 0, ops = l\<rparr>"
  by (simp add: fresh_def)

lemma try_scrape_raised:
  assumes "try_scrape db w site_key target concurrency existing = Inl (e, st)"
  shows "e = ValueError \<and> existing_games st = existing \<and> concurrency \<le> 0
         \<and> (\<exists>s. source_of site_key = Some s \<and> seed_urls w s \<noteq> [])"
proof -
  from assms obtain s where s: "source_of site_key = Some s" and seeds: "seed_urls w s \<noteq> []"
    by (auto simp: try_scrape_cases split: option.splits if_splits)
  show ?thesis
  proof (cases "concurrency < 0")
    case True
    with assms s seeds show ?thesis by (auto simp: try_scrape_cases)
  next
    case False
    with assms s seeds have "harvest db w s target (nat concurrency) (seed_urls w s) 0
                 \<lparr>results = [], seen_names = {||}, existing_games = existing,
                  idx = 0, attempts = 0, ops = [Discover s]\<rparr> = Inl (e, st)"
      by (auto simp: try_scrape_cases split: sum.splits)
    from harvest_raises [OF this] False s seeds show ?thesis by auto
  qed
qed

lemma try_scrape_returned:
  assumes "try_scrape db w site_key target concurrency existing = Inr out"
  shows "distinct (map (identity db) (returned out))"
    and "\<forall>g \<in> set (returned out). identity db g |\<notin>| existing \<and> identity db g |\<in>| shared out"
    and "existing |\<subseteq>| shared out"
proof -
  have "distinct (map (identity db) (returned out))
    \<and> (\<forall>g \<in> set (returned out). identity db g |\<notin>| existing \<and> identity db g |\<in>| shared out)
    \<and> existing |\<subseteq>| shared out"
  proof (cases "source_of site_key")
    case None
    with assms show ?thesis by (auto simp: try_scrape_cases)
  next
    case (Some s)
    show ?thesis
    proof (cases "seed_urls w s = []")
      case True
      with assms Some show ?thesis by (auto simp: try_scrape_cases)
    next
      case False
      with assms Some obtain st where
        h: "harvest db w s target (nat concurrency) (seed_urls w s) 0
                 \<lparr>results = [], seen_names = {||}, existing_games = existing,
                  idx = 0, attempts = 0, ops = [Discover s]\<rparr> = Inr st"
        and o: "out = finish db s target st"
        by (auto simp: try_scrape_cases split: if_splits sum.splits)
      from harvest_fresh [OF fresh_initial h] have "fresh db existing st" .
      from finish_fresh [OF this, of s target] o show ?thesis by simp
    qed
  qed
  then show "distinct (map (identity db) (returned out))"
    and "\<forall>g \<in> set (returned out). identity db g |\<notin>| existing \<and> identity db g |\<in>| shared out"
    and "existing |\<subseteq>| shared out" by simp_all
qed

text \<open>
  With at least one seed URL the list returned has the length of the quota, on every way
  through the function.
\<close>

lemma scrape_site_quota:
  assumes "source_of site_key = Some s" and "seed_urls w s \<noteq> []"
  shows "length (returned (scrape_site db w site_key target concurrency existing)) = target"
proof (cases "try_scrape db w site_key target concurrency existing")
  case (Inl raised)
  then show ?thesis
    by (cases raised) (simp add: scrape_site_def length_fallback_records)
next
  case (Inr out)
  with assms obtain st where "out = finish db s target st"
    by (auto simp: try_scrape_cases split: if_splits sum.splits)
  with Inr show ?thesis by (simp add: scrape_site_def finish_length)
qed

text \<open>Worlds for concrete runs: no network at all; one listed URL whose page never loads;
  every site reached after the deadline.\<close>

definition offline :: world where
  "offline = \<lparr>seed_urls = (\<lambda>s. []), done_results = (\<lambda>s k batch. []),
              before_deadline = (\<lambda>s k. True), expired = (\<lambda>s. False)\<rparr>"

definition listed :: world where
  "listed = \<lparr>seed_urls = (\<lambda>s. [of_ascii ''https://example.org/1'']),
             done_results = (\<lambda>s k batch. map (\<lambda>u. None) batch),
             before_deadline = (\<lambda>s k. True), expired = (\<lambda>s. False)\<rparr>"

definition late :: world where
  "late = \<lparr>seed_urls = (\<lambda>s. [of_ascii ''https://example.org/1'']),
           done_results = (\<lambda>s k batch. map (\<lambda>u. None) batch),
           before_deadline = (\<lambda>s k. False), expired = (\<lambda>s. True)\<rparr>"

lemma source_of_key: "source_of (key s) = Some s"
  by (cases s) (simp_all add: source_of_def of_ascii_def)

lemma scrape_site_no_seeds_eq:
  assumes "source_of site_key = Some s" and "seed_urls w s = []"
  shows "scrape_site db w site_key target concurrency existing
           = \<lparr>returned = [], shared = existing, performed = [Discover s]\<rparr>"
  using assms by (simp add: scrape_site_def try_scrape_cases)

text \<open>
  C1 (the code at the failing input). With no network the seeders find nothing, and for
  Steam, whose quota is 80, \<open>scrape_site\<close> returns the empty list; the whole run returns
  no record at all.
\<close>

theorem offline_scrape_site_returns_nothing:
  "TARGET Steam = 80
   \<and> length (returned (scrape_site db offline (of_ascii ''steam'') (TARGET Steam) concurrency {||})) = 0
   \<and> all_results (run db offline concurrency) = []"
proof -
  have s: "scrape_site db offline (key s) target concurrency existing
      = \<lparr>returned = [], shared = existing, performed = [Discover s]\<rparr>" for s target existing
    by (rule scrape_site_no_seeds_eq [OF source_of_key]) (simp add: offline_def)
  have e: "\<not> expired offline s" for s by (simp add: offline_def)
  have "run_site db offline concurrency rs s = rs\<lparr>all_ops := all_ops rs @ [Discover s]\<rparr>"
    for rs s
    by (simp add: run_site_def e s Let_def del: key.simps)
  then have "all_results (run db offline concurrency) = []"
    by (simp add: run_def)
  moreover have "TARGET Steam = 80" by (simp add: TARGET_def)
  ultimately show ?thesis using s [of Steam] by simp
qed

text \<open>
  C2 (the code at the failing inputs). When the seeder of a known site returns no URL,
  \<open>scrape_site\<close> returns the empty list, whatever the quota, and leaves the shared set
  as it was: no synthetic record is made.
\<close>

theorem scrape_site_no_seeds:
  assumes "source_of site_key = Some s" and "seed_urls w s = []"
  shows "returned (scrape_site db w site_key target concurrency existing) = []
         \<and> shared (scrape_site db w site_key target concurrency existing) = existing"
  using scrape_site_no_seeds_eq [OF assms] by simp

theorem scrape_site_no_seeds_witness:
  "source_of (of_ascii ''gog'') = Some Gog \<and> seed_urls offline Gog = []
   \<and> returned (scrape_site sample_db offline (of_ascii ''gog'') 80 20 {||}) = []"
proof -
  have a: "source_of (of_ascii ''gog'') = Some Gog" by (simp add: source_of_def of_ascii_def)
  have b: "seed_urls offline Gog = []" by (simp add: offline_def)
  from scrape_site_no_seeds [OF a b] a b show ?thesis by simp
qed

lemma listed_raises:
  "try_scrape db listed (of_ascii ''steam'') 2 0 existing
     = Inl (ValueError, \<lparr>results = [], seen_names = {||}, existing_games = existing,
                          idx = 0, attempts = 0, ops = [Discover Steam]\<rparr>)"
proof -
  have s: "source_of (of_ascii ''steam'') = Some Steam" by (simp add: source_of_def)
  have "harvest db listed Steam 2 0 [of_ascii ''https://example.org/1''] 0
      \<lparr>results = [], seen_names = {||}, existing_games = existing,
                          idx = 0, attempts = 0, ops = [Discover Steam]\<rparr>
     = Inl (ValueError, \<lparr>results = [], seen_names = {||}, existing_games = existing,
                          idx = 0, attempts = 0, ops = [Discover Steam]\<rparr>)"
    by (subst harvest.simps) (simp add: listed_def)
  then show ?thesis by (simp add: try_scrape_cases s listed_def)
qed

lemma try_scrape_console_printing:
  assumes "con Starting = None" and "con Found = None" and "con NotFound = None"
  shows "try_scrape_console con db w site_key target concurrency existing
           = try_scrape db w site_key target concurrency existing"
  using assms
  by (simp add: try_scrape_console_def try_scrape_def Let_def split: option.splits)

text \<open>On a console that prints all four messages the function is \<open>scrape_site\<close>.\<close>

lemma scrape_site_console_printing:
  assumes "con Starting = None" and "con Found = None" and "con NotFound = None"
    and "con Failed = None"
  shows "scrape_site_console con db w site_key target concurrency existing
           = Inr (scrape_site db w site_key target concurrency existing)"
  using assms(4)
  by (simp add: scrape_site_console_def scrape_site_def try_scrape_console_printing [OF assms(1-3)]
      split: sum.splits prod.splits)

text \<open>
  When the message of the \<open>except\<close> clause can be printed, the function returns a list
  whatever happens in the \<open>try\<close> block, and after a raise the list has the length of the
  quota.
\<close>

lemma scrape_site_console_handler_prints:
  assumes "con Failed = None"
  shows "\<exists>out. scrape_site_console con db w site_key target concurrency existing = Inr out
           \<and> (isl (try_scrape_console con db w site_key target concurrency existing) \<longrightarrow>
                returned out = fallback_records site_key target
                \<and> length (returned out) = target)"
  using assms
  by (cases "try_scrape_console con db w site_key target concurrency existing")
    (auto simp: scrape_site_console_def length_fallback_records)

text \<open>
  C8 (the code at the failing inputs). For a known site on a console that prints the first
  message but not the check mark of the second, the second \<open>print\<close> raises inside the
  \<open>try\<close> block; and whenever the block raises on a console that cannot print the cross
  of the handler's message, the handler's own \<open>print\<close> raises and that exception leaves
  \<open>scrape_site\<close>: no list is returned.
\<close>

theorem scrape_site_console_escapes:
  "(source_of site_key = Some s \<and> con Starting = None \<and> con Found = Some e \<longrightarrow>
      (\<exists>st. try_scrape_console con db w site_key target concurrency existing = Inl (e, st)))
   \<and> (isl (try_scrape_console con db w site_key target concurrency existing)
        \<and> con Failed = Some e' \<longrightarrow>
      scrape_site_console con db w site_key target concurrency existing = Inl e')"
proof -
  have 1: "source_of site_key = Some s \<and> con Starting = None \<and> con Found = Some e \<longrightarrow>
      (\<exists>st. try_scrape_console con db w site_key target concurrency existing = Inl (e, st))"
    by (simp add: try_scrape_console_def Let_def)
  have 2: "isl (try_scrape_console con db w site_key target concurrency existing)
        \<and> con Failed = Some e' \<longrightarrow>
      scrape_site_console con db w site_key target concurrency existing = Inl e'"
    by (cases "try_scrape_console con db w site_key target concurrency existing")
      (auto simp: scrape_site_console_def)
  from 1 2 show ?thesis by (rule conjI)
qed

theorem scrape_site_console_escapes_witness:
  "source_of (of_ascii ''steam'') = Some Steam
   \<and> legacy_console Starting = None
   \<and> legacy_console Found = Some UnicodeEncodeError
   \<and> legacy_console Failed = Some UnicodeEncodeError
   \<and> isl (try_scrape_console legacy_console sample_db listed (of_ascii ''steam'') 80 20 {||})
   \<and> scrape_site_console legacy_console sample_db listed (of_ascii ''steam'') 80 20 {||}
       = Inl UnicodeEncodeError"
proof -
  have a: "source_of (of_ascii ''steam'') = Some Steam" by (simp add: source_of_def)
  have b: "legacy_console Starting = None" by (simp add: legacy_console_def)
  have c: "legacy_console Found = Some UnicodeEncodeError" by (simp add: legacy_console_def)
  have d: "legacy_console Failed = Some UnicodeEncodeError" by (simp add: legacy_console_def)
  note t = scrape_site_console_escapes [of "of_ascii ''steam''" Steam legacy_console
      UnicodeEncodeError sample_db listed 80 20 "{||}" UnicodeEncodeError]
  from t a b c have i: "isl (try_scrape_console legacy_console sample_db listed (of_ascii ''steam'') 80 20 {||})"
    by auto
  with t d have "scrape_site_console legacy_console sample_db listed (of_ascii ''steam'') 80 20 {||}
       = Inl UnicodeEncodeError" by blast
  with a b c d i show ?thesis by blast
qed

text \<open>
  C10. When the \<open>try\<close> block raises, the list returned is the handler's, built from the
  site and the quota alone, and the shared set is the one the call was given: the
  identities of the handler's records are neither looked up in it nor added to it. When
  the block returns, the identity of every record returned is in the shared set.
\<close>

theorem scrape_site_fallback_bypasses_shared_set:
  "(case try_scrape db w site_key target concurrency existing of
      Inl raised \<Rightarrow>
        returned (scrape_site db w site_key target concurrency existing)
          = fallback_records site_key target
        \<and> shared (scrape_site db w site_key target concurrency existing) = existing
    | Inr out \<Rightarrow>
        (\<forall>g \<in> set (returned (scrape_site db w site_key target concurrency existing)).
           identity db g |\<in>| shared (scrape_site db w site_key target concurrency existing)))"
proof (cases "try_scrape db w site_key target concurrency existing")
  case (Inl raised)
  obtain e st where r: "raised = (e, st)" by (cases raised)
  with Inl try_scrape_raised [of db w site_key target concurrency existing e st]
  have "existing_games st = existing" by simp
  with Inl r show ?thesis by (simp add: scrape_site_def)
next
  case (Inr out)
  from try_scrape_returned(2) [OF this] Inr show ?thesis by (simp add: scrape_site_def)
qed

theorem scrape_site_fallback_bypasses_shared_set_witness:
  "isl (try_scrape sample_db listed (of_ascii ''steam'') 2 0 {|of_ascii ''juego steam #1''|})
   \<and> shared (scrape_site sample_db listed (of_ascii ''steam'') 2 0 {|of_ascii ''juego steam #1''|})
       = {|of_ascii ''juego steam #1''|}
   \<and> map (identity sample_db)
        (returned (scrape_site sample_db listed (of_ascii ''steam'') 2 0 {|of_ascii ''juego steam #1''|}))
       = [of_ascii ''juego steam #1'', of_ascii ''juego steam #2'']"
proof -
  let ?E = "{|of_ascii ''juego steam #1''|}"
  from scrape_site_fallback_bypasses_shared_set [of sample_db listed "of_ascii ''steam''" 2 0 ?E]
  have r: "returned (scrape_site sample_db listed (of_ascii ''steam'') 2 0 ?E)
      = fallback_records (of_ascii ''steam'') 2"
    and s: "shared (scrape_site sample_db listed (of_ascii ''steam'') 2 0 ?E) = ?E"
    by (simp_all add: listed_raises)
  have k: "of_ascii ''steam'' = key Steam" by simp
  have "map (identity sample_db) (fallback_records (of_ascii ''steam'') 2)
      = [fallback_id Steam 0, fallback_id Steam 1]"
    unfolding k
    by (simp add: fallback_records_def identity_def normalize_fallback_name
        upt_rec [of _ "numeral _"] upt_rec [of 0 "numeral _"] del: key.simps)
  also have "\<dots> = [of_ascii ''juego steam #1'', of_ascii ''juego steam #2'']"
    by (simp add: fallback_id_def of_ascii_def str_nat.simps)
  finally show ?thesis using r s by (simp add: listed_raises)
qed

section \<open>Properties of \<open>run\<close>\<close>

lemma next_timeout_free:
  "timeout_id s (next_timeout db s existing c) |\<notin>| existing"
proof (induction db s existing c rule: next_timeout.induct)
  case (1 db s existing c)
  show ?case
  proof (cases "timeout_id s c |\<notin>| existing")
    case True
    then have "next_timeout db s existing c = c"
      by (subst next_timeout.simps) (simp add: normalize_timeout_name)
    with True show ?thesis by simp
  next
    case False
    then have "next_timeout db s existing c = next_timeout db s existing (c + 1)"
      by (subst next_timeout.simps) (auto simp: normalize_timeout_name)
    with "1.IH" [OF refl] False show ?thesis by (auto simp: normalize_timeout_name)
  qed
qed

text \<open>
  What the deadline branch appends: \<open>n\<close> records with timeout names, whose identities are
  pairwise distinct, were not in the shared set and are in it afterwards; nothing else
  changes.
\<close>

lemma timeout_fill_appends:
  "\<exists>new. all_results (timeout_fill db s n c rs) = all_results rs @ new
     \<and> length new = n
     \<and> (\<forall>g \<in> set new. \<exists>k. name g = timeout_name s k \<and> site g = key s \<and> url g = example_url k)
     \<and> distinct (map (identity db) new)
     \<and> (\<forall>g \<in> set new. identity db g |\<notin>| all_existing rs
           \<and> identity db g |\<in>| all_existing (timeout_fill db s n c rs))
     \<and> all_existing rs |\<subseteq>| all_existing (timeout_fill db s n c rs)
     \<and> all_ops (timeout_fill db s n c rs) = all_ops rs"
proof (induction n arbitrary: c rs)
  case 0
  show ?case by simp
next
  case (Suc n)
  define k where "k = next_timeout db s (all_existing rs) c"
  define g where "g = \<lparr>name = timeout_name s k, site = key s, url = example_url k\<rparr>"
  define rs1 where "rs1 = rs\<lparr>all_results := all_results rs @ [g],
               all_existing := finsert (timeout_id s k) (all_existing rs)\<rparr>"
  have step: "timeout_fill db s (Suc n) c rs = timeout_fill db s n (k + 1) rs1"
    by (simp add: Let_def k_def g_def rs1_def normalize_timeout_name)
  have i: "identity db g = timeout_id s k"
    by (simp add: identity_def g_def normalize_timeout_name)
  have free: "timeout_id s k |\<notin>| all_existing rs"
    unfolding k_def by (rule next_timeout_free)
  from Suc.IH [of "k + 1" rs1] obtain new where
    a: "all_results (timeout_fill db s n (k + 1) rs1) = all_results rs1 @ new"
    and b: "length new = n"
    and c: "\<forall>g \<in> set new. \<exists>k. name g = timeout_name s k \<and> site g = key s \<and> url g = example_url k"
    and d: "distinct (map (identity db) new)"
    and e: "\<forall>g \<in> set new. identity db g |\<notin>| all_existing rs1
           \<and> identity db g |\<in>| all_existing (timeout_fill db s n (k + 1) rs1)"
    and f: "all_existing rs1 |\<subseteq>| all_existing (timeout_fill db s n (k + 1) rs1)"
    and h: "all_ops (timeout_fill db s n (k + 1) rs1) = all_ops rs1"
    by blast
  have x: "all_existing rs1 = finsert (timeout_id s k) (all_existing rs)"
    and y: "all_results rs1 = all_results rs @ [g]" and z: "all_ops rs1 = all_ops rs"
    by (simp_all add: rs1_def)
  have 1: "all_results (timeout_fill db s (Suc n) c rs) = all_results rs @ (g # new)"
    unfolding step a y by simp
  have 2: "length (g # new) = Suc n" using b by simp
  have 3: "\<forall>g \<in> set (g # new). \<exists>k. name g = timeout_name s k \<and> site g = key s \<and> url g = example_url k"
    using c by (auto simp: g_def)
  have 4: "distinct (map (identity db) (g # new))"
    using d e i x by auto
  have 5: "\<forall>g \<in> set (g # new). identity db g |\<notin>| all_existing rs
           \<and> identity db g |\<in>| all_existing (timeout_fill db s (Suc n) c rs)"
    unfolding step using e f i x free by auto
  have 6: "all_existing rs |\<subseteq>| all_existing (timeout_fill db s (Suc n) c rs)"
    unfolding step using f x by auto
  have 7: "all_ops (timeout_fill db s (Suc n) c rs) = all_ops rs"
    unfolding step h z by simp
  from 1 2 3 4 5 6 7 show ?case by blast
qed


lemma accept_ops: "ops (accept db st r) = ops st"
  by (simp add: accept_def Let_def split: option.splits)

lemma harvest_ops:
  assumes "x \<in> set (ops st)" and "harvest db w s target concurrency seeds k st = Inr st'"
  shows "x \<in> set (ops st')"
  using _ _ assms
  by (rule harvest_invariant [where P = "\<lambda>st. x \<in> set (ops st)"]) (simp_all add: accept_ops)

text \<open>A call of \<open>scrape_site\<close> for a known site always performs the discovery.\<close>

lemma scrape_site_discovers:
  "Discover s \<in> set (performed (scrape_site db w (key s) target concurrency existing))"
proof -
  let ?st0 = "\<lparr>results = [], seen_names = {||}, existing_games = existing,
                  idx = 0, attempts = 0, ops = [Discover s]\<rparr>"
  let ?t = "try_scrape db w (key s) target concurrency existing"
  show ?thesis
  proof (cases ?t)
    case (Inl raised)
    obtain e st where p: "raised = (e, st)" by (cases raised)
    have "ops st = [Discover s]"
    proof (cases "concurrency < 0")
      case True
      with Inl p show ?thesis
        by (auto simp: try_scrape_cases source_of_key split: if_splits simp del: key.simps)
    next
      case False
      with Inl p have "harvest db w s target (nat concurrency) (seed_urls w s) 0 ?st0 = Inl (e, st)"
        by (auto simp: try_scrape_cases source_of_key split: if_splits sum.splits simp del: key.simps)
      from harvest_raises [OF this] show ?thesis by simp
    qed
    with Inl p show ?thesis by (simp add: scrape_site_def del: key.simps)
  next
    case (Inr out)
    then have o: "scrape_site db w (key s) target concurrency existing = out"
      by (simp add: scrape_site_def del: key.simps)
    show ?thesis
    proof (cases "seed_urls w s = []")
      case True
      with Inr show ?thesis unfolding o
        by (auto simp: try_scrape_cases source_of_key simp del: key.simps)
    next
      case False
      with Inr obtain st where h: "harvest db w s target (nat concurrency) (seed_urls w s) 0 ?st0 = Inr st"
        and f: "out = finish db s target st"
        by (auto simp: try_scrape_cases source_of_key split: if_splits sum.splits simp del: key.simps)
      have "Discover s \<in> set (ops st)" by (rule harvest_ops [OF _ h]) simp
      then show ?thesis unfolding o f by (simp add: finish_def Let_def backfill_ops)
    qed
  qed
qed

lemma run_site_in_time_discovers:
  "\<not> expired w s \<Longrightarrow> Discover s \<in> set (all_ops (run_site db w concurrency rs s))"
  using scrape_site_discovers [of s db w "TARGET s" concurrency "all_existing rs"]
  by (simp add: run_site_def Let_def del: key.simps)

text \<open>
  C5. When the deadline has passed as \<open>run\<close> reaches a site, the step for that site
  performs no operation on the network and appends exactly the quota of the site in
  synthetic records, named \<open>Timeout SITE Juego k\<close>. (For a site reached in time the
  discovery is always performed, lemma \<open>run_site_in_time_discovers\<close>.)
\<close>

theorem run_site_expired:
  assumes "expired w s"
  shows "all_ops (run_site db w concurrency rs s) = all_ops rs
         \<and> (\<exists>new. all_results (run_site db w concurrency rs s) = all_results rs @ new
               \<and> length new = TARGET s
               \<and> (\<forall>g \<in> set new. \<exists>k. name g = timeout_name s k \<and> site g = key s
                      \<and> url g = example_url k))"
proof -
  from assms have "run_site db w concurrency rs s = timeout_fill db s (TARGET s) 1 rs"
    by (simp add: run_site_def)
  with timeout_fill_appends [of db s "TARGET s" 1 rs] show ?thesis by auto
qed

theorem run_site_expired_witness:
  "expired late Gmg
   \<and> all_ops (run_site sample_db late 20 \<lparr>all_results = [], all_existing = {||}, all_ops = []\<rparr> Gmg) = []
   \<and> length (all_results
        (run_site sample_db late 20 \<lparr>all_results = [], all_existing = {||}, all_ops = []\<rparr> Gmg)) = 50"
proof -
  have e: "expired late Gmg" by (simp add: late_def)
  from run_site_expired [OF e, of sample_db 20 "\<lparr>all_results = [], all_existing = {||}, all_ops = []\<rparr>"]
  show ?thesis using e by (auto simp: TARGET_def)
qed

section \<open>No two records of a run share an identity\<close>













end
